theory Spec2Isabelle
  imports Complex_Main "HOL-Library.AList" "HOL-Library.Product_Lexorder" "HOL-Library.Word"
begin

section \<open>Data model of \<^verbatim>\<open>board.py\<close>\<close>

text \<open>
  A \<^verbatim>\<open>SparseBoard\<close> has a width, a height and the dictionary \<^verbatim>\<open>sparse_board\<close> from
  squares \<open>(x, y)\<close> to piece values (1 red man, 2 red king, -1 black man, -2 black king).
  A Python dictionary keeps its keys in insertion order and the successor generator
  iterates over it, so the dictionary is an association list in insertion order:
  \<^verbatim>\<open>d[k] = v\<close> is \<^const>\<open>AList.update\<close> (in place when the key is present, appended
  otherwise), \<^verbatim>\<open>del d[k]\<close> is \<^const>\<open>AList.delete\<close> after the check that the key
  is present, \<^verbatim>\<open>d.get(k, 0)\<close> reads \<^const>\<open>map_of\<close>.
\<close>

datatype error = KeyError | TypeError | ZeroDivisionError

type_synonym square = "int \<times> int"
type_synonym dict = "(square \<times> int) list"

record board =
  width :: int
  height :: int
  sparse_board :: dict

definition SparseBoard :: "int \<Rightarrow> int \<Rightarrow> board" where
  "SparseBoard w h = \<lparr>width = w, height = h, sparse_board = []\<rparr>"

definition dict_get :: "dict \<Rightarrow> square \<Rightarrow> int \<Rightarrow> int" where
  "dict_get d k dflt = (case map_of d k of None \<Rightarrow> dflt | Some v \<Rightarrow> v)"

text \<open>Loops that accumulate a result and may raise: the first error ends the loop.\<close>

fun fold_err :: "('a \<Rightarrow> 's \<Rightarrow> error + 's) \<Rightarrow> 'a list \<Rightarrow> 's \<Rightarrow> error + 's" where
  "fold_err f [] s = Inr s"
| "fold_err f (x # xs) s = (case f x s of Inl e \<Rightarrow> Inl e | Inr s' \<Rightarrow> fold_err f xs s')"

lemma fold_err_cong [fundef_cong]:
  "xs = ys \<Longrightarrow> s = t \<Longrightarrow> (\<And>x a. x \<in> set ys \<Longrightarrow> f x a = g x a)
    \<Longrightarrow> fold_err f xs s = fold_err g ys t"
  by (induction ys arbitrary: xs s t) (auto split: sum.splits)

section \<open>Single steps and jumps\<close>

text \<open>
  \<^verbatim>\<open>_perform_move\<close> and \<^verbatim>\<open>_perform_jump\<close> copy the board, read and delete the moving
  piece (and, for a jump, delete the piece jumped over), promote a man whose destination
  is its king row, and write the piece at the destination. The value written,
  \<^verbatim>\<open>new_val\<close> in both functions, is the same expression of the old value and the
  destination row; it is one definition here.
\<close>

definition new_val :: "board \<Rightarrow> int \<Rightarrow> int \<Rightarrow> int" where
  "new_val b val dest_y =
     (if \<bar>val\<bar> = 1 then
        (let king_row = (if val > 0 then 0 else height b - 1)
         in if dest_y = king_row then val * 2 else val)
      else val)"

definition perform_move :: "board \<Rightarrow> int \<Rightarrow> int \<Rightarrow> int \<times> int \<Rightarrow> error + board" where
  "perform_move b x y move =
     (case map_of (sparse_board b) (x, y) of
        None \<Rightarrow> Inl KeyError
      | Some val \<Rightarrow>
          (let d1 = AList.delete (x, y) (sparse_board b)
           in Inr (b\<lparr>sparse_board :=
                      AList.update (x + fst move, y + snd move)
                        (new_val b val (y + snd move)) d1\<rparr>)))"

definition perform_jump :: "board \<Rightarrow> int \<Rightarrow> int \<Rightarrow> int \<times> int \<Rightarrow> error + board" where
  "perform_jump b x y move =
     (case map_of (sparse_board b) (x, y) of
        None \<Rightarrow> Inl KeyError
      | Some val \<Rightarrow>
          (let d1 = AList.delete (x, y) (sparse_board b) in
           case map_of d1 (x + fst move, y + snd move) of
             None \<Rightarrow> Inl KeyError
           | Some _ \<Rightarrow>
               (let d2 = AList.delete (x + fst move, y + snd move) d1
                in Inr (b\<lparr>sparse_board :=
                           AList.update (x + fst move * 2, y + snd move * 2)
                             (new_val b val (y + snd move * 2)) d2\<rparr>))))"

section \<open>Successor generation\<close>

text \<open>
  \<open>occupation b loc\<close> is the source's
  \<^verbatim>\<open>self.sparse_board.get(loc, 0) if 0 <= loc[0] < self.width and 0 <= loc[1] < self.height else None\<close>.
\<close>

definition occupation :: "board \<Rightarrow> square \<Rightarrow> int option" where
  "occupation b loc =
     (if 0 \<le> fst loc \<and> fst loc < width b \<and> 0 \<le> snd loc \<and> snd loc < height b
      then Some (dict_get (sparse_board b) loc 0) else None)"

definition potential_moves :: "bool \<Rightarrow> int \<Rightarrow> (int \<times> int) list" where
  "potential_moves is_king player =
     [(1, - player), (-1, - player)] @ (if is_king then [(1, player), (-1, player)] else [])"

text \<open>
  The jump test of both \<^verbatim>\<open>get_successors\<close> and \<^verbatim>\<open>_follow_jump\<close>:
  \<^verbatim>\<open>move_occupation is not None and move_occupation * player < 0 and jump_occupation == 0\<close>.
\<close>

definition can_jump :: "board \<Rightarrow> int \<Rightarrow> int \<Rightarrow> int \<times> int \<Rightarrow> int \<Rightarrow> bool" where
  "can_jump b x y move player =
     (let move_occupation = occupation b (x + fst move, y + snd move);
          jump_occupation = occupation b (x + fst move * 2, y + snd move * 2)
      in (case move_occupation of None \<Rightarrow> False | Some m \<Rightarrow> m * player < 0)
         \<and> jump_occupation = Some 0)"

lemma perform_jump_length:
  assumes "perform_jump b x y move = Inr nb"
  shows "length (sparse_board nb) < length (sparse_board b)"
proof -
  from assms obtain val w where v: "map_of (sparse_board b) (x, y) = Some val"
    and w: "map_of (AList.delete (x, y) (sparse_board b)) (x + fst move, y + snd move) = Some w"
    by (auto simp: perform_jump_def Let_def split: option.splits)
  let ?d1 = "AList.delete (x, y) (sparse_board b)"
  let ?d2 = "AList.delete (x + fst move, y + snd move) ?d1"
  have del: "length (AList.delete k al) < length al" if "map_of al k = Some u"
    for k :: square and al :: dict and u
    using that by (induction al) (auto simp: AList.delete_eq less_Suc_eq_le split: if_splits)
  have upd: "length (AList.update k u al) \<le> Suc (length al)" for k :: square and u and al :: dict
    by (induction al) auto
  have "length ?d2 < length ?d1" using del [OF w] .
  moreover have "length ?d1 < length (sparse_board b)" using del [OF v] .
  moreover have "sparse_board nb =
      AList.update (x + fst move * 2, y + snd move * 2) (new_val b val (y + snd move * 2)) ?d2"
    using assms v w by (auto simp: perform_jump_def Let_def)
  ultimately show ?thesis
    using upd [of "(x + fst move * 2, y + snd move * 2)" "new_val b val (y + snd move * 2)" ?d2]
    by simp
qed

text \<open>
  \<^verbatim>\<open>_follow_jump\<close>: perform the jump, then try every direction of the piece from the
  landing square. The occupation tests read \<^verbatim>\<open>self\<close>, the board before this jump; the
  recursive call is on the board after it. The \<^verbatim>\<open>is_king\<close> flag is handed on as
  received.
\<close>

function follow_jump ::
  "board \<Rightarrow> int \<Rightarrow> int \<Rightarrow> int \<times> int \<Rightarrow> bool \<Rightarrow> int \<Rightarrow> error + board list" where
  "follow_jump b x y move is_king player =
     (case perform_jump b x y move of
        Inl e \<Rightarrow> Inl e
      | Inr new_board \<Rightarrow>
          (let new_x = x + fst move * 2; new_y = y + snd move * 2 in
           case fold_err
                  (\<lambda>m successors.
                     if can_jump b new_x new_y m player then
                       (case follow_jump new_board new_x new_y m is_king player of
                          Inl e \<Rightarrow> Inl e
                        | Inr further \<Rightarrow> Inr (successors @ further))
                     else Inr successors)
                  (potential_moves is_king player) [] of
             Inl e \<Rightarrow> Inl e
           | Inr successors \<Rightarrow>
               Inr (if length successors = 0 then [new_board] else successors)))"
  by pat_completeness auto
termination
  by (relation "measure (\<lambda>(b, x, y, move, is_king, player). length (sparse_board b))")
     (auto dest: perform_jump_length)

declare follow_jump.simps [simp del]

text \<open>
  \<^verbatim>\<open>__hash__\<close> is \<^verbatim>\<open>hash(json.dumps(tuple(sorted(self.sparse_board.items())), sort_keys=True))\<close>.
  The tuple of sorted items is \<open>hash_input\<close> (Python compares the items, tuples
  \<open>((x, y), value)\<close>, lexicographically, as the product order does). \<^verbatim>\<open>json.dumps\<close> and
  the built-in \<^verbatim>\<open>hash\<close> of the resulting text are the Python library's; their
  composition is the parameter \<open>H\<close> of every function that hashes a board.
\<close>

definition hash_input :: "board \<Rightarrow> dict" where
  "hash_input b = sort (sparse_board b)"

definition hash_board :: "(dict \<Rightarrow> 'h) \<Rightarrow> board \<Rightarrow> 'h" where
  "hash_board H b = H (hash_input b)"

text \<open>
  One direction of one piece in \<^verbatim>\<open>get_successors\<close>: the body of the inner loop, on the
  pair of accumulators \<^verbatim>\<open>(move_successors, jump_successors)\<close>. The source's last branch
  (\<^verbatim>\<open>raise Exception\<close>) follows \<^verbatim>\<open>move_occupation != 0\<close> and \<^verbatim>\<open>move_occupation == 0\<close> and is
  never taken.
\<close>

definition try_move ::
  "board \<Rightarrow> int \<Rightarrow> int \<Rightarrow> int \<Rightarrow> int \<Rightarrow> int \<times> int \<Rightarrow> board list \<times> board list
    \<Rightarrow> error + board list \<times> board list" where
  "try_move b player x y val move acc =
     (case acc of (move_successors, jump_successors) \<Rightarrow>
        (case occupation b (x + fst move, y + snd move) of
           None \<Rightarrow> Inr acc
         | Some move_occupation \<Rightarrow>
             if move_occupation \<noteq> 0 then
               (if can_jump b x y move player then
                  (case follow_jump b x y move (val * player = 2) player of
                     Inl e \<Rightarrow> Inl e
                   | Inr further \<Rightarrow> Inr (move_successors, jump_successors @ further))
                else Inr acc)
             else
               (case perform_move b x y move of
                  Inl e \<Rightarrow> Inl e
                | Inr new_board \<Rightarrow> Inr (move_successors @ [new_board], jump_successors))))"

definition try_piece ::
  "board \<Rightarrow> int \<Rightarrow> square \<times> int \<Rightarrow> board list \<times> board list
    \<Rightarrow> error + board list \<times> board list" where
  "try_piece b player item acc =
     (case item of ((x, y), val) \<Rightarrow>
        if val * player > 0 then
          fold_err (try_move b player x y val) (potential_moves (val * player = 2) player) acc
        else Inr acc)"

fun unique_successors :: "(dict \<Rightarrow> 'h) \<Rightarrow> board list \<Rightarrow> 'h set \<Rightarrow> board list" where
  "unique_successors H [] seen_hashes = []"
| "unique_successors H (successor # rest) seen_hashes =
     (if hash_board H successor \<notin> seen_hashes then
        successor # unique_successors H rest (insert (hash_board H successor) seen_hashes)
      else unique_successors H rest seen_hashes)"

definition get_successors :: "(dict \<Rightarrow> 'h) \<Rightarrow> board \<Rightarrow> int \<Rightarrow> error + board list" where
  "get_successors H b player =
     (case fold_err (try_piece b player) (sparse_board b) ([], []) of
        Inl e \<Rightarrow> Inl e
      | Inr (move_successors, jump_successors) \<Rightarrow>
          (let successors =
                 (if length jump_successors > 0 then jump_successors else move_successors)
           in Inr (unique_successors H successors {})))"

section \<open>Terminal test and static evaluation\<close>

text \<open>
  The scores of the search are Python floats: a finite value, an infinity, or (from
  \<^verbatim>\<open>0 * float("-inf")\<close>) not a number. Rounding of finite values is not modelled: a finite
  float is the real it stands for.
\<close>

datatype pyfloat = Finite real | PosInf | NegInf | NaN

definition float_gt_zero :: "pyfloat \<Rightarrow> bool" where
  "float_gt_zero v = (case v of Finite r \<Rightarrow> r > 0 | PosInf \<Rightarrow> True | NegInf \<Rightarrow> False | NaN \<Rightarrow> False)"

definition float_lt_zero :: "pyfloat \<Rightarrow> bool" where
  "float_lt_zero v = (case v of Finite r \<Rightarrow> r < 0 | PosInf \<Rightarrow> False | NegInf \<Rightarrow> True | NaN \<Rightarrow> False)"

text \<open>\<^verbatim>\<open>player * float("-inf")\<close> for an integer \<^verbatim>\<open>player\<close>.\<close>

definition times_neg_inf :: "int \<Rightarrow> pyfloat" where
  "times_neg_inf player = (if player > 0 then NegInf else if player < 0 then PosInf else NaN)"

definition is_end :: "board \<Rightarrow> pyfloat" where
  "is_end b =
     (case fold (\<lambda>val (red_pieces, black_pieces).
                   if val > 0 then (red_pieces + 1, black_pieces)
                   else if val < 0 then (red_pieces, black_pieces + 1)
                   else (red_pieces, black_pieces))
                (map snd (sparse_board b)) (0 :: int, 0 :: int) of
        (red_pieces, black_pieces) \<Rightarrow>
          if red_pieces = 0 then NegInf
          else if black_pieces = 0 then PosInf
          else Finite 0)"

definition get_terminal_value_and_succ ::
  "(dict \<Rightarrow> 'h) \<Rightarrow> board \<Rightarrow> int \<Rightarrow> error + pyfloat \<times> board list" where
  "get_terminal_value_and_succ H b player =
     (let value = is_end b in
      if float_gt_zero value then Inr (PosInf, [])
      else if float_lt_zero value then Inr (NegInf, [])
      else
        (case get_successors H b player of
           Inl e \<Rightarrow> Inl e
         | Inr successors \<Rightarrow>
             if length successors = 0 then Inr (times_neg_inf player, [])
             else Inr (Finite 0, successors)))"

text \<open>
  \<^verbatim>\<open>evaluate\<close> divides the sum of the values by their number with Python's true
  division, which raises \<^verbatim>\<open>ZeroDivisionError\<close> on a zero divisor.
\<close>

definition evaluate :: "board \<Rightarrow> error + real" where
  "evaluate b =
     (case fold (\<lambda>val (total_score, total_pieces). (total_score + val, total_pieces + 1))
                (map snd (sparse_board b)) (0 :: int, 0 :: int) of
        (total_score, total_pieces) \<Rightarrow>
          if total_pieces = 0 then Inl ZeroDivisionError
          else Inr (real_of_int total_score / real_of_int total_pieces))"

definition utility :: "board \<Rightarrow> error + real" where
  "utility b = evaluate b"

section \<open>The search state: transposition cache and strategy\<close>

text \<open>
  The fields of \<^verbatim>\<open>ExploreState\<close> that the score cache and the recovery of the best
  path use. The score cache maps a board hash to \<^verbatim>\<open>(score, depth, player)\<close>. The strategy
  is a dictionary from \<^verbatim>\<open>(hash, player)\<close> to \<^verbatim>\<open>(successor, score)\<close>, kept as an
  association list: it is finite, which is what ends the walk along it.
\<close>

record 'h explore_state =
  use_score_cache :: bool
  score_cache :: "'h \<rightharpoonup> pyfloat \<times> int \<times> int"
  cache_hits :: int
  strategy :: "(('h \<times> int) \<times> board \<times> pyfloat) list"

definition get_cached_score ::
  "'h explore_state \<Rightarrow> board \<Rightarrow> 'h \<Rightarrow> int \<Rightarrow> int \<Rightarrow> pyfloat option \<times> 'h explore_state" where
  "get_cached_score st b board_hash depth player =
     (if \<not> use_score_cache st then (None, st)
      else
        (case score_cache st board_hash of
           Some (cached_score, cached_depth, cached_player) \<Rightarrow>
             if depth \<le> cached_depth \<and> player = cached_player then
               (Some cached_score, st\<lparr>cache_hits := cache_hits st + 1\<rparr>)
             else (None, st)
         | None \<Rightarrow> (None, st)))"

definition cache_score ::
  "'h explore_state \<Rightarrow> board \<Rightarrow> 'h \<Rightarrow> int \<Rightarrow> int \<Rightarrow> pyfloat \<Rightarrow> 'h explore_state" where
  "cache_score st b board_hash depth player score =
     st\<lparr>score_cache := (score_cache st)(board_hash \<mapsto> (score, depth, player))\<rparr>"

text \<open>
  The loop of \<^verbatim>\<open>recover_best_path\<close>, on \<^verbatim>\<open>board\<close>, \<^verbatim>\<open>player\<close>, \<^verbatim>\<open>path\<close> and \<^verbatim>\<open>in_path\<close>.
  Every turn that does not leave the loop adds to \<^verbatim>\<open>in_path\<close> the hash of a successor
  stored in the strategy that was not in it.
\<close>

function recover_loop ::
  "(dict \<Rightarrow> 'h) \<Rightarrow> (('h \<times> int) \<times> board \<times> pyfloat) list \<Rightarrow> board \<Rightarrow> int
    \<Rightarrow> board list \<Rightarrow> 'h set \<Rightarrow> board list" where
  "recover_loop H strat b player path in_path =
     (case map_of strat (hash_board H b, player) of
        None \<Rightarrow> path
      | Some (next_board, _) \<Rightarrow>
          if hash_board H next_board \<in> in_path then path
          else recover_loop H strat next_board (player * (- 1)) (path @ [next_board])
                 (insert (hash_board H next_board) in_path))"
  by pat_completeness auto
termination
proof (relation "measure (\<lambda>(H, strat, b, player, path, in_path).
          card ((\<lambda>e. hash_board H (fst (snd e))) ` set strat - in_path))")
  show "wf (measure (\<lambda>(H, strat, b, player, path, in_path).
          card ((\<lambda>e. hash_board H (fst (snd e))) ` set strat - in_path)))"
    by simp
next
  fix H :: "dict \<Rightarrow> 'h" and strat :: "(('h \<times> int) \<times> board \<times> pyfloat) list"
    and b :: board and player :: int and path :: "board list" and in_path :: "'h set"
    and x2 :: "board \<times> pyfloat" and next_board :: board and sc :: pyfloat
  assume look: "map_of strat (hash_board H b, player) = Some x2"
    and x2: "(next_board, sc) = x2"
    and new: "hash_board H next_board \<notin> in_path"
  let ?S = "(\<lambda>e. hash_board H (fst (snd e))) ` set strat"
  have "((hash_board H b, player), (next_board, sc)) \<in> set strat"
    using look x2 by (auto dest: map_of_SomeD)
  then have mem: "hash_board H next_board \<in> ?S" by force
  have "?S - insert (hash_board H next_board) in_path \<subset> ?S - in_path"
    using mem new by auto
  then have "card (?S - insert (hash_board H next_board) in_path) < card (?S - in_path)"
    by (intro psubset_card_mono) auto
  then show "((H, strat, next_board, player * (- 1), path @ [next_board],
               insert (hash_board H next_board) in_path),
              (H, strat, b, player, path, in_path))
             \<in> measure (\<lambda>(H, strat, b, player, path, in_path).
                  card ((\<lambda>e. hash_board H (fst (snd e))) ` set strat - in_path))"
    by simp
qed

declare recover_loop.simps [simp del]

definition recover_best_path ::
  "'h explore_state \<Rightarrow> (dict \<Rightarrow> 'h) \<Rightarrow> board \<Rightarrow> int \<Rightarrow> board list" where
  "recover_best_path st H b player = recover_loop H (strategy st) b player [b] {}"

section \<open>Reading and rendering the text format\<close>

text \<open>
  Characters are code points below 256. Python's \<^verbatim>\<open>str.splitlines\<close> ends a line at
  line feed, carriage return (with a following line feed taken as part of it), vertical
  tab, form feed, the separators 0x1C to 0x1E and next line (0x85); \<^verbatim>\<open>str.rstrip()\<close>
  removes the trailing white space of a line, which in this range is 0x09 to 0x0D,
  0x1C to 0x1F, space, 0x85 and 0xA0.
\<close>

definition char_to_int :: "char \<Rightarrow> int option" where
  "char_to_int = map_of [(CHR ''r'', 1), (CHR ''R'', 2), (CHR ''b'', - 1), (CHR ''B'', - 2)]"

definition int_to_char :: "int \<Rightarrow> char option" where
  "int_to_char =
     map_of [(1, CHR ''r''), (2, CHR ''R''), (- 1, CHR ''b''), (- 2, CHR ''B''), (0, CHR ''.'')]"

definition is_linebreak :: "char \<Rightarrow> bool" where
  "is_linebreak c = (c \<in> set [CHR 0x0A, CHR 0x0B, CHR 0x0C, CHR 0x0D, CHR 0x1C, CHR 0x1D,
                              CHR 0x1E, CHR 0x85])"

definition is_space :: "char \<Rightarrow> bool" where
  "is_space c = (c \<in> set [CHR 0x09, CHR 0x0A, CHR 0x0B, CHR 0x0C, CHR 0x0D, CHR 0x1C, CHR 0x1D,
                         CHR 0x1E, CHR 0x1F, CHR 0x20, CHR 0x85, CHR 0xA0])"

definition rstrip :: "string \<Rightarrow> string" where
  "rstrip s = rev (dropWhile is_space (rev s))"

text \<open>\<open>splitlines_from cur s\<close>: the lines of \<open>s\<close>, the first one after the text \<open>cur\<close>
  already read on it. A last line without a terminator is a line unless it is empty.\<close>

fun splitlines_from :: "string \<Rightarrow> string \<Rightarrow> string list" where
  "splitlines_from cur [] = (if cur = [] then [] else [cur])"
| "splitlines_from cur (c # cs) =
     (if c = CHR 0x0D \<and> cs \<noteq> [] \<and> hd cs = CHR 0x0A then cur # splitlines_from [] (tl cs)
      else if is_linebreak c then cur # splitlines_from [] cs
      else splitlines_from (cur @ [c]) cs)"

definition splitlines :: "string \<Rightarrow> string list" where
  "splitlines s = splitlines_from [] s"

text \<open>
  \<^verbatim>\<open>__str__\<close>: one character a square, row by row, a line feed after each row. A value
  with no entry in \<^verbatim>\<open>int_to_char\<close> gives \<^verbatim>\<open>None\<close>, and adding it to the text raises
  \<^verbatim>\<open>TypeError\<close>.
\<close>

definition str_row :: "board \<Rightarrow> int \<Rightarrow> string \<Rightarrow> error + string" where
  "str_row b y text =
     fold_err (\<lambda>x acc. case int_to_char (dict_get (sparse_board b) (x, y) 0) of
                           None \<Rightarrow> Inl TypeError
                         | Some c \<Rightarrow> Inr (acc @ [c]))
       [0..width b - 1] text"

definition str_board :: "board \<Rightarrow> error + string" where
  "str_board b =
     fold_err (\<lambda>y acc. case str_row b y acc of
                           Inl e \<Rightarrow> Inl e
                         | Inr acc' \<Rightarrow> Inr (acc' @ [CHR 0x0A]))
       [0..height b - 1] []"

text \<open>
  The two readers run the same loops over the lines of the input; a character other
  than \<^verbatim>\<open>.\<close> is looked up in \<^verbatim>\<open>char_to_int\<close>, which raises \<^verbatim>\<open>KeyError\<close> when it is not
  a key. \<^verbatim>\<open>read_from_string\<close> takes the lines from \<^verbatim>\<open>splitlines\<close>; \<^verbatim>\<open>read_from_file\<close>
  takes them from the open file, and is modelled on the list of lines that iterating
  the file yields.
\<close>

fun read_row :: "int \<Rightarrow> int \<Rightarrow> string \<Rightarrow> dict \<Rightarrow> error + dict" where
  "read_row y x [] d = Inr d"
| "read_row y x (char # rest) d =
     (if char \<noteq> CHR ''.'' then
        (case char_to_int char of
           None \<Rightarrow> Inl KeyError
         | Some v \<Rightarrow> read_row y (x + 1) rest (AList.update (x, y) v d))
      else read_row y (x + 1) rest d)"

fun read_rows :: "int \<Rightarrow> string list \<Rightarrow> dict \<Rightarrow> error + dict" where
  "read_rows y [] d = Inr d"
| "read_rows y (line # rest) d =
     (case read_row y 0 (rstrip line) d of
        Inl e \<Rightarrow> Inl e
      | Inr d' \<Rightarrow> read_rows (y + 1) rest d')"

definition read_lines :: "string list \<Rightarrow> error + board" where
  "read_lines lines =
     (case read_rows 0 lines (sparse_board (SparseBoard 8 8)) of
        Inl e \<Rightarrow> Inl e
      | Inr d \<Rightarrow> Inr ((SparseBoard 8 8)\<lparr>sparse_board := d\<rparr>))"

definition read_from_string :: "string \<Rightarrow> error + board" where
  "read_from_string string = read_lines (splitlines string)"

definition read_from_file :: "string list \<Rightarrow> error + board" where
  "read_from_file file_lines = read_lines file_lines"

section \<open>The score cache\<close>

lemma cache_score_entry:
  "score_cache (cache_score st b h d0 p0 score0) h = Some (score0, d0, p0)"
  by (simp add: cache_score_def)

text \<open>
  Claim C4. Against a store whose entry for the hash \<open>h\<close> is \<open>(score0, d0, p0)\<close>, a probe
  with remaining depth \<open>d\<close> and player \<open>p\<close> returns \<open>score0\<close> only if \<open>p = p0\<close> and the
  entry was produced with at least the remaining depth \<open>d\<close> (\<open>d \<le> d0\<close>); in every other
  case it returns no value. The probe answers exactly when, in addition, the cache is
  switched on.
\<close>

theorem get_cached_score_sound:
  assumes "score_cache st h = Some (score0, d0, p0)"
  shows "fst (get_cached_score st b h d p) =
           (if use_score_cache st \<and> d \<le> d0 \<and> p = p0 then Some score0 else None)"
  using assms by (simp add: get_cached_score_def)

theorem get_cached_score_sound_witness:
  "score_cache (cache_score \<lparr>use_score_cache = True, score_cache = Map.empty, cache_hits = 0,
                             strategy = []\<rparr> (SparseBoard 8 8) (7 :: nat) 4 1 PosInf) 7
     = Some (PosInf, 4, 1)
   \<and> fst (get_cached_score
            (cache_score \<lparr>use_score_cache = True, score_cache = Map.empty, cache_hits = 0,
                          strategy = []\<rparr> (SparseBoard 8 8) (7 :: nat) 4 1 PosInf)
            (SparseBoard 8 8) 7 3 1) = Some PosInf
   \<and> fst (get_cached_score
            (cache_score \<lparr>use_score_cache = True, score_cache = Map.empty, cache_hits = 0,
                          strategy = []\<rparr> (SparseBoard 8 8) (7 :: nat) 4 1 PosInf)
            (SparseBoard 8 8) 7 5 1) = None"
proof -
  let ?st = "cache_score \<lparr>use_score_cache = True, score_cache = Map.empty, cache_hits = 0,
                          strategy = []\<rparr> (SparseBoard 8 8) (7 :: nat) 4 1 PosInf"
  have e: "score_cache ?st 7 = Some (PosInf, 4, 1)" by (simp add: cache_score_def)
  have u: "use_score_cache ?st" by (simp add: cache_score_def)
  show ?thesis
    using e u get_cached_score_sound [OF e, of "SparseBoard 8 8" 3 1]
      get_cached_score_sound [OF e, of "SparseBoard 8 8" 5 1]
    by simp
qed

section \<open>Static evaluation\<close>

lemma fold_count:
  "fold (\<lambda>val (total_score, total_pieces). (total_score + val, total_pieces + 1)) vs
        (s :: int, n :: int)
     = (s + sum_list vs, n + int (length vs))"
  by (induction vs arbitrary: s n) auto

lemma sum_list_pieces_bound:
  "\<forall>v\<in>set vs. \<bar>v\<bar> \<le> (2::int) \<Longrightarrow> \<bar>sum_list vs\<bar> \<le> 2 * int (length vs)"
  by (induction vs) auto

text \<open>
  Claim C10. On a board with one or more pieces (values among 1, 2, -1, -2)
  \<^verbatim>\<open>evaluate\<close> returns the sum of the piece values divided by the number of pieces,
  without error; the quotient lies between -2 and 2, inside the range of a float. On
  the empty board the division by the piece count fails with \<^verbatim>\<open>ZeroDivisionError\<close>.
  \<^verbatim>\<open>utility\<close> equals \<^verbatim>\<open>evaluate\<close> on every board.
\<close>

theorem evaluate_defined_iff_pieces:
  assumes "\<forall>v\<in>set (map snd (sparse_board b)). v \<in> {1, 2, - 1, - 2}"
  shows "(sparse_board b \<noteq> [] \<longrightarrow>
            evaluate b = Inr (real_of_int (sum_list (map snd (sparse_board b)))
                              / real (length (sparse_board b)))
            \<and> \<bar>real_of_int (sum_list (map snd (sparse_board b)))
                 / real (length (sparse_board b))\<bar> \<le> 2)
       \<and> (sparse_board b = [] \<longrightarrow> evaluate b = Inl ZeroDivisionError)
       \<and> utility b = evaluate b"
proof -
  let ?vs = "map snd (sparse_board b)"
  have ev: "evaluate b = (if length ?vs = 0 then Inl ZeroDivisionError
              else Inr (real_of_int (sum_list ?vs) / real (length ?vs)))"
    by (simp add: evaluate_def fold_count)
  have "\<forall>v\<in>set ?vs. \<bar>v\<bar> \<le> 2" using assms by auto
  then have "\<bar>sum_list ?vs\<bar> \<le> 2 * int (length ?vs)" by (rule sum_list_pieces_bound)
  then have "\<bar>real_of_int (sum_list ?vs)\<bar> \<le> 2 * real (length ?vs)"
    by (metis (mono_tags, opaque_lifting) of_int_abs of_int_le_iff of_int_mult of_int_numeral
        of_int_of_nat_eq)
  then have bound: "sparse_board b \<noteq> [] \<Longrightarrow>
      \<bar>real_of_int (sum_list ?vs) / real (length (sparse_board b))\<bar> \<le> 2"
    by (simp add: field_simps)
  show ?thesis using ev bound by (simp add: utility_def)
qed

theorem evaluate_defined_iff_pieces_witness:
  "evaluate \<lparr>width = 8, height = 8, sparse_board = [((2, 4), 1), ((3, 3), - 1), ((5, 5), 2)]\<rparr>
     = Inr (2 / 3)
   \<and> utility \<lparr>width = 8, height = 8, sparse_board = [((2, 4), 1), ((3, 3), - 1), ((5, 5), 2)]\<rparr>
     = Inr (2 / 3)
   \<and> evaluate (SparseBoard 8 8) = Inl ZeroDivisionError
   \<and> utility (SparseBoard 8 8) = Inl ZeroDivisionError"
  using evaluate_defined_iff_pieces
          [of "\<lparr>width = 8, height = 8, sparse_board = [((2, 4), 1), ((3, 3), - 1), ((5, 5), 2)]\<rparr>"]
        evaluate_defined_iff_pieces [of "SparseBoard 8 8"]
  by (simp add: SparseBoard_def)

section \<open>Promotion\<close>

lemma new_val_cases:
  assumes "val \<in> {1, 2, - 1, - 2}"
  shows "(\<bar>new_val b val dy\<bar> = 2 \<longleftrightarrow> \<bar>val\<bar> = 2 \<or> dy = (if val > 0 then 0 else height b - 1))
       \<and> (\<bar>new_val b val dy\<bar> = 1 \<longleftrightarrow> \<bar>val\<bar> = 1 \<and> dy \<noteq> (if val > 0 then 0 else height b - 1))
       \<and> (\<bar>val\<bar> = 1 \<and> dy \<noteq> (if val > 0 then 0 else height b - 1) \<longrightarrow> new_val b val dy = val)
       \<and> (0 < new_val b val dy \<longleftrightarrow> 0 < val)"
  using assms by (auto simp: new_val_def Let_def)

text \<open>
  Claim C7. For a single step (\<^verbatim>\<open>_perform_move\<close>) or a jump (\<^verbatim>\<open>_perform_jump\<close>) of a
  piece, the moved piece stands on its destination square in the resulting board, and
  it is a king there if and only if it was a king already or the destination lies on
  its own king row (row 0 for Red, row \<open>height - 1\<close> for Black); a man whose destination
  is off its king row remains the same man. The colour never changes.
\<close>

theorem promotion_exactly_at_destination:
  assumes "map_of (sparse_board b) (x, y) = Some val" and "val \<in> {1, 2, - 1, - 2}"
    and "r = perform_move b x y move \<and> dest = (x + fst move, y + snd move)
       \<or> r = perform_jump b x y move \<and> dest = (x + fst move * 2, y + snd move * 2)"
    and "r = Inr nb"
  shows "\<exists>nv. map_of (sparse_board nb) dest = Some nv
           \<and> (\<bar>nv\<bar> = 2 \<longleftrightarrow> \<bar>val\<bar> = 2 \<or> snd dest = (if val > 0 then 0 else height b - 1))
           \<and> (\<bar>nv\<bar> = 1 \<longleftrightarrow> \<bar>val\<bar> = 1 \<and> snd dest \<noteq> (if val > 0 then 0 else height b - 1))
           \<and> (\<bar>val\<bar> = 1 \<and> snd dest \<noteq> (if val > 0 then 0 else height b - 1) \<longrightarrow> nv = val)
           \<and> (0 < nv \<longleftrightarrow> 0 < val)"
proof -
  have "map_of (sparse_board nb) dest = Some (new_val b val (snd dest))"
    using assms(1,3,4)
    by (auto simp: perform_move_def perform_jump_def Let_def AList.update_conv'
             split: option.splits)
  then show ?thesis using new_val_cases [OF assms(2), of b "snd dest"] by blast
qed

theorem promotion_exactly_at_destination_witness:
  "perform_jump \<lparr>width = 8, height = 8, sparse_board = [((2, 2), 1), ((1, 1), - 1)]\<rparr> 2 2 (- 1, - 1)
     = Inr \<lparr>width = 8, height = 8, sparse_board = [((0, 0), 2)]\<rparr>
   \<and> (\<exists>nv. map_of [((0, 0), 2)] (0 :: int, 0 :: int) = Some nv \<and> \<bar>nv\<bar> = (2 :: int))
   \<and> perform_move \<lparr>width = 8, height = 8, sparse_board = [((2, 2), 1), ((1, 1), - 1)]\<rparr> 2 2 (1, - 1)
     = Inr \<lparr>width = 8, height = 8, sparse_board = [((1, 1), - 1), ((3, 1), 1)]\<rparr>
   \<and> (\<exists>nv. map_of [((1, 1), - 1), ((3, 1), 1)] (3 :: int, 1 :: int) = Some nv \<and> nv = (1 :: int))"
proof -
  let ?b = "\<lparr>width = 8, height = 8, sparse_board = [((2, 2), 1), ((1, 1), - 1)]\<rparr>"
  let ?j = "\<lparr>width = 8, height = 8, sparse_board = [((0, 0), 2)]\<rparr>"
  let ?m = "\<lparr>width = 8, height = 8, sparse_board = [((1, 1), - 1), ((3, 1), 1)]\<rparr>"
  have j: "perform_jump ?b 2 2 (- 1, - 1) = Inr ?j"
    by (simp add: perform_jump_def new_val_def)
  have m: "perform_move ?b 2 2 (1, - 1) = Inr ?m"
    by (simp add: perform_move_def new_val_def)
  have v: "map_of (sparse_board ?b) (2, 2) = Some 1" "(1 :: int) \<in> {1, 2, - 1, - 2}"
    by simp_all
  show ?thesis
    using j m
      promotion_exactly_at_destination
        [OF v, of "perform_jump ?b 2 2 (- 1, - 1)" "(- 1, - 1)" "(0, 0)" ?j]
      promotion_exactly_at_destination
        [OF v, of "perform_move ?b 2 2 (1, - 1)" "(1, - 1)" "(3, 1)" ?m]
    by simp
qed

section \<open>Terminal positions\<close>

lemma fold_is_end:
  "fold (\<lambda>val (red_pieces, black_pieces).
           if val > 0 then (red_pieces + 1, black_pieces)
           else if val < 0 then (red_pieces, black_pieces + 1)
           else (red_pieces, black_pieces)) (vs :: int list) (r :: int, k :: int)
     = (r + int (length (filter (\<lambda>v. v > 0) vs)), k + int (length (filter (\<lambda>v. v < 0) vs)))"
  by (induction vs arbitrary: r k) auto

lemma count_colors:
  "(case fold (\<lambda>val (red_pieces, black_pieces).
                 if val > 0 then (red_pieces + 1, black_pieces)
                 else if val < 0 then (red_pieces, black_pieces + 1)
                 else (red_pieces, black_pieces)) (vs :: int list) (0 :: int, 0 :: int) of
      (red_pieces, black_pieces) \<Rightarrow>
        if red_pieces = 0 then NegInf else if black_pieces = 0 then PosInf else Finite 0)
   = (if \<not> (\<exists>v\<in>set vs. v > 0) then NegInf
      else if \<not> (\<exists>v\<in>set vs. v < 0) then PosInf
      else Finite 0)"
  by (simp add: fold_is_end filter_empty_conv)

lemma is_end_colors:
  "is_end b =
     (if \<not> (\<exists>v\<in>set (map snd (sparse_board b)). v > 0) then NegInf
      else if \<not> (\<exists>v\<in>set (map snd (sparse_board b)). v < 0) then PosInf
      else Finite 0)"
  unfolding is_end_def by (rule count_colors)

text \<open>
  Claim C5. \<^verbatim>\<open>is_end\<close> is 0 exactly when both colours are present. For such a board and
  a side \<open>s\<close> (1 or -1) with no successor, \<^verbatim>\<open>get_terminal_value_and_succ\<close> returns
  \<open>s\<close> times minus infinity (minus infinity when Red is to move, plus infinity when Black
  is) with an empty successor list; when \<^verbatim>\<open>is_end\<close> is an infinity, it returns that
  infinity, again with an empty list.
\<close>

theorem no_move_means_loss:
  shows "(is_end b = Finite 0 \<longleftrightarrow>
            (\<exists>v\<in>set (map snd (sparse_board b)). v > 0)
            \<and> (\<exists>v\<in>set (map snd (sparse_board b)). v < 0))
       \<and> ((\<exists>v\<in>set (map snd (sparse_board b)). v > 0)
            \<and> (\<exists>v\<in>set (map snd (sparse_board b)). v < 0)
            \<and> get_successors H b s = Inr [] \<and> (s = 1 \<or> s = - 1)
          \<longrightarrow> is_end b = Finite 0
            \<and> get_terminal_value_and_succ H b s = Inr (if s = 1 then NegInf else PosInf, []))
       \<and> (is_end b = PosInf \<longrightarrow> get_terminal_value_and_succ H b s = Inr (PosInf, []))
       \<and> (is_end b = NegInf \<longrightarrow> get_terminal_value_and_succ H b s = Inr (NegInf, []))"
proof -
  have t: "get_terminal_value_and_succ H b s =
      (if is_end b = PosInf then Inr (PosInf, [])
       else if is_end b = NegInf then Inr (NegInf, [])
       else (case get_successors H b s of
               Inl e \<Rightarrow> Inl e
             | Inr successors \<Rightarrow>
                 if length successors = 0 then Inr (times_neg_inf s, [])
                 else Inr (Finite 0, successors)))"
    unfolding get_terminal_value_and_succ_def Let_def is_end_colors
    by (simp add: float_gt_zero_def float_lt_zero_def)
  have c: "(\<exists>v\<in>set (map snd (sparse_board b)). v > 0)
            \<and> (\<exists>v\<in>set (map snd (sparse_board b)). v < 0) \<Longrightarrow> is_end b = Finite 0"
    unfolding is_end_colors by simp
  have c': "is_end b = Finite 0 \<Longrightarrow> (\<exists>v\<in>set (map snd (sparse_board b)). v > 0)
            \<and> (\<exists>v\<in>set (map snd (sparse_board b)). v < 0)"
    unfolding is_end_colors by (simp split: if_splits)
  have i: "is_end b = Finite 0 \<longleftrightarrow>
            (\<exists>v\<in>set (map snd (sparse_board b)). v > 0)
            \<and> (\<exists>v\<in>set (map snd (sparse_board b)). v < 0)"
    using c c' by blast
  have l: "get_terminal_value_and_succ H b s = Inr (if s = 1 then NegInf else PosInf, [])"
    if "is_end b = Finite 0" "get_successors H b s = Inr []" "s = 1 \<or> s = - 1"
    using that by (auto simp: t times_neg_inf_def)
  have p: "is_end b = PosInf \<Longrightarrow> get_terminal_value_and_succ H b s = Inr (PosInf, [])"
    by (simp add: t)
  have n: "is_end b = NegInf \<Longrightarrow> get_terminal_value_and_succ H b s = Inr (NegInf, [])"
    by (simp add: t)
  show ?thesis
    using i l p n by blast
qed

theorem no_move_means_loss_witness:
  "get_successors (\<lambda>t. t)
      \<lparr>width = 8, height = 8, sparse_board = [((0, 0), - 2), ((1, 1), 2), ((2, 2), 2)]\<rparr> (- 1)
     = Inr []
   \<and> get_terminal_value_and_succ (\<lambda>t. t)
      \<lparr>width = 8, height = 8, sparse_board = [((0, 0), - 2), ((1, 1), 2), ((2, 2), 2)]\<rparr> (- 1)
     = Inr (PosInf, [])
   \<and> is_end \<lparr>width = 8, height = 8, sparse_board = [((1, 1), 2)]\<rparr> = PosInf
   \<and> get_terminal_value_and_succ (\<lambda>t. t)
        \<lparr>width = 8, height = 8, sparse_board = [((1, 1), 2)]\<rparr> (- 1) = Inr (PosInf, [])"
proof -
  let ?b = "\<lparr>width = 8, height = 8, sparse_board = [((0, 0), - 2), ((1, 1), 2), ((2, 2), 2)]\<rparr>"
  let ?w = "\<lparr>width = 8, height = 8, sparse_board = [((1, 1), 2)]\<rparr>"
  have s: "get_successors (\<lambda>t. t) ?b (- 1) = Inr []"
    by code_simp
  have e: "is_end ?w = PosInf" by (simp add: is_end_def)
  show ?thesis
    using s e no_move_means_loss [of ?b "\<lambda>t. t" "- 1"] no_move_means_loss [of ?w "\<lambda>t. t" "- 1"]
    by simp
qed

section \<open>Forced capture\<close>

lemma fold_err_inv:
  assumes "fold_err f xs s = Inr t" and "P s"
    and "\<And>x a a'. x \<in> set xs \<Longrightarrow> P a \<Longrightarrow> f x a = Inr a' \<Longrightarrow> P a'"
  shows "P t"
  using assms
proof (induction xs arbitrary: s)
  case Nil
  then show ?case by simp
next
  case (Cons x xs)
  from Cons.prems(1) obtain s' where s': "f x s = Inr s'" and r: "fold_err f xs s' = Inr t"
    by (auto split: sum.splits)
  have "P s'" using Cons.prems(3) [of x s s'] Cons.prems(2) s' by simp
  show ?case
  proof (rule Cons.IH [OF r \<open>P s'\<close>])
    fix y a a' assume "y \<in> set xs" "P a" "f y a = Inr a'"
    then show "P a'" using Cons.prems(3) [of y a a'] by simp
  qed
qed

lemma fold_err_reach:
  assumes "fold_err f xs s = Inr t" and "x \<in> set xs"
    and "\<And>a a'. f x a = Inr a' \<Longrightarrow> Q a'"
    and "\<And>y a a'. y \<in> set xs \<Longrightarrow> Q a \<Longrightarrow> f y a = Inr a' \<Longrightarrow> Q a'"
  shows "Q t"
  using assms
proof (induction xs arbitrary: s)
  case Nil
  then show ?case by simp
next
  case (Cons z zs)
  from Cons.prems(1) obtain s' where s': "f z s = Inr s'" and r: "fold_err f zs s' = Inr t"
    by (auto split: sum.splits)
  show ?case
  proof (cases "x = z")
    case True
    then have "Q s'" using Cons.prems(3) s' by simp
    show ?thesis
    proof (rule fold_err_inv [OF r, where P = Q])
      show "Q s'" by fact
    next
      fix y a a' assume "y \<in> set zs" "Q a" "f y a = Inr a'"
      then show "Q a'" using Cons.prems(4) [of y a a'] by simp
    qed
  next
    case False
    then have "x \<in> set zs" using Cons.prems(2) by simp
    show ?thesis
    proof (rule Cons.IH [OF r \<open>x \<in> set zs\<close>])
      fix a a' assume "f x a = Inr a'"
      then show "Q a'" by (rule Cons.prems(3))
    next
      fix y a a' assume "y \<in> set zs" "Q a" "f y a = Inr a'"
      then show "Q a'" using Cons.prems(4) [of y a a'] by simp
    qed
  qed
qed

lemma follow_jump_fewer:
  "follow_jump b x y move k p = Inr ss \<Longrightarrow>
     ss \<noteq> [] \<and> (\<forall>c\<in>set ss. length (sparse_board c) < length (sparse_board b))"
proof (induction b x y move k p arbitrary: ss rule: follow_jump.induct)
  case (1 b x y move k p)
  let ?f = "\<lambda>nb m successors.
              if can_jump b (x + fst move * 2) (y + snd move * 2) m p then
                (case follow_jump nb (x + fst move * 2) (y + snd move * 2) m k p of
                   Inl e \<Rightarrow> Inl e
                 | Inr further \<Rightarrow> Inr (successors @ further))
              else Inr successors"
  from "1.prems" obtain nb acc where pj: "perform_jump b x y move = Inr nb"
    and fe: "fold_err (?f nb) (potential_moves k p) [] = Inr acc"
    and ss: "ss = (if length acc = 0 then [nb] else acc)"
    by (auto simp: follow_jump.simps [of b x y move k p] Let_def split: sum.splits)
  have lt: "length (sparse_board nb) < length (sparse_board b)"
    by (rule perform_jump_length [OF pj])
  have "\<forall>c\<in>set acc. length (sparse_board c) < length (sparse_board nb)"
  proof (rule fold_err_inv [OF fe])
    show "\<forall>c\<in>set []. length (sparse_board c) < length (sparse_board nb)" by simp
  next
    fix m a a'
    assume m: "m \<in> set (potential_moves k p)"
      and a: "\<forall>c\<in>set a. length (sparse_board c) < length (sparse_board nb)"
      and st: "?f nb m a = Inr a'"
    show "\<forall>c\<in>set a'. length (sparse_board c) < length (sparse_board nb)"
    proof (cases "can_jump b (x + fst move * 2) (y + snd move * 2) m p")
      case True
      with st obtain further where
        f: "follow_jump nb (x + fst move * 2) (y + snd move * 2) m k p = Inr further"
        and a': "a' = a @ further"
        by (auto split: sum.splits)
      from "1.IH" [OF pj refl refl m True f]
      have "\<forall>c\<in>set further. length (sparse_board c) < length (sparse_board nb)" by simp
      with a a' show ?thesis by auto
    next
      case False
      with st a show ?thesis by simp
    qed
  qed
  with lt ss show ?case by (auto split: if_splits)
qed


text \<open>
  The boards of the data model: a dictionary has each key once, and every value is a
  piece (1, 2, -1 or -2).
\<close>

definition valid_board :: "board \<Rightarrow> bool" where
  "valid_board b \<longleftrightarrow>
     distinct (map fst (sparse_board b))
     \<and> (\<forall>v\<in>set (map snd (sparse_board b)). v \<in> {1, 2, - 1, - 2})"

text \<open>
  A jump is available for a side when one of its pieces passes the jump test of
  \<^verbatim>\<open>get_successors\<close> in one of its directions.
\<close>

definition jump_available :: "board \<Rightarrow> int \<Rightarrow> bool" where
  "jump_available b player \<longleftrightarrow>
     (\<exists>item\<in>set (sparse_board b).
        case item of ((x, y), val) \<Rightarrow>
          val * player > 0
          \<and> (\<exists>m\<in>set (potential_moves (val * player = 2) player). can_jump b x y m player))"

lemma length_delete_present:
  "distinct (map fst al) \<Longrightarrow> map_of al k = Some v \<Longrightarrow>
     Suc (length (AList.delete k al)) = length al"
proof (induction al)
  case Nil
  then show ?case by simp
next
  case (Cons p al)
  show ?case
  proof (cases "fst p = k")
    case True
    then have "k \<notin> fst ` set al" using Cons.prems(1) by auto
    then show ?thesis using True by simp
  next
    case False
    then show ?thesis using Cons by auto
  qed
qed

lemma length_update_absent:
  "map_of al k = None \<Longrightarrow> length (AList.update k v al) = Suc (length al)"
  by (induction al) (auto split: if_splits)

lemma perform_move_length:
  assumes "distinct (map fst (sparse_board b))" and "perform_move b x y move = Inr nb"
    and "map_of (sparse_board b) (x + fst move, y + snd move) = None"
  shows "length (sparse_board nb) = length (sparse_board b)"
proof -
  from assms(2) obtain val where v: "map_of (sparse_board b) (x, y) = Some val"
    and nb: "sparse_board nb = AList.update (x + fst move, y + snd move)
               (new_val b val (y + snd move)) (AList.delete (x, y) (sparse_board b))"
    by (auto simp: perform_move_def Let_def split: option.splits)
  have "map_of (AList.delete (x, y) (sparse_board b)) (x + fst move, y + snd move) = None"
    using assms(3) by (simp add: AList.delete_conv')
  then show ?thesis
    using nb length_delete_present [OF assms(1) v] by (simp add: length_update_absent)
qed

lemma occupation_empty:
  assumes "valid_board b" and "occupation b loc = Some 0"
  shows "map_of (sparse_board b) loc = None"
proof (cases "map_of (sparse_board b) loc")
  case None
  then show ?thesis .
next
  case (Some v)
  then have "(loc, v) \<in> set (sparse_board b)" by (rule map_of_SomeD)
  then have "v \<in> snd ` set (sparse_board b)" by force
  then have "v \<noteq> 0" using assms(1) by (auto simp: valid_board_def)
  moreover have "v = 0" using assms(2) Some
    by (simp add: occupation_def dict_get_def split: if_splits)
  ultimately show ?thesis by simp
qed

lemma can_jump_occupied:
  "can_jump b x y m p \<Longrightarrow> \<exists>mo. occupation b (x + fst m, y + snd m) = Some mo \<and> mo \<noteq> 0"
  by (auto simp: can_jump_def Let_def split: option.splits)

lemma try_move_cases:
  assumes "try_move b p x y val m (ms, js) = Inr (ms', js')"
  shows "(can_jump b x y m p \<and> ms' = ms
            \<and> (\<exists>further. follow_jump b x y m (val * p = 2) p = Inr further \<and> js' = js @ further))
       \<or> (\<not> can_jump b x y m p \<and> js' = js
            \<and> (ms' = ms
               \<or> (\<exists>nb. occupation b (x + fst m, y + snd m) = Some 0
                       \<and> perform_move b x y m = Inr nb \<and> ms' = ms @ [nb])))"
proof (cases "can_jump b x y m p")
  case True
  then obtain mo where "occupation b (x + fst m, y + snd m) = Some mo" "mo \<noteq> 0"
    using can_jump_occupied by blast
  then show ?thesis using assms True
    by (auto simp: try_move_def split: sum.splits)
next
  case False
  then show ?thesis using assms
    by (auto simp: try_move_def split: option.splits sum.splits if_splits)
qed


lemma try_move_inv:
  assumes vb: "valid_board b"
    and item: "((x, y), val) \<in> set (sparse_board b)" and own: "val * p > 0"
    and m: "m \<in> set (potential_moves (val * p = 2) p)"
    and st: "try_move b p x y val m (ms, js) = Inr (ms', js')"
    and ms: "\<forall>c\<in>set ms. length (sparse_board c) = length (sparse_board b)"
    and js: "\<forall>c\<in>set js. length (sparse_board c) < length (sparse_board b)"
    and av: "js \<noteq> [] \<longrightarrow> jump_available b p"
  shows "(\<forall>c\<in>set ms'. length (sparse_board c) = length (sparse_board b))
       \<and> (\<forall>c\<in>set js'. length (sparse_board c) < length (sparse_board b))
       \<and> (js' \<noteq> [] \<longrightarrow> jump_available b p)"
proof (cases "can_jump b x y m p")
  case True
  with try_move_cases [OF st] obtain further where
    f: "follow_jump b x y m (val * p = 2) p = Inr further" and e: "ms' = ms" "js' = js @ further"
    by auto
  have "jump_available b p"
    unfolding jump_available_def using item own m True by force
  then show ?thesis using follow_jump_fewer [OF f] ms js e by auto
next
  case False
  with try_move_cases [OF st] have e: "js' = js"
    and c: "ms' = ms \<or> (\<exists>nb. occupation b (x + fst m, y + snd m) = Some 0
                       \<and> perform_move b x y m = Inr nb \<and> ms' = ms @ [nb])"
    by auto
  from c have "\<forall>c\<in>set ms'. length (sparse_board c) = length (sparse_board b)"
  proof
    assume "ms' = ms"
    then show ?thesis using ms by simp
  next
    assume "\<exists>nb. occupation b (x + fst m, y + snd m) = Some 0
                       \<and> perform_move b x y m = Inr nb \<and> ms' = ms @ [nb]"
    then obtain nb where o: "occupation b (x + fst m, y + snd m) = Some 0"
      and pm: "perform_move b x y m = Inr nb" and e': "ms' = ms @ [nb]"
      by blast
    have "length (sparse_board nb) = length (sparse_board b)"
      using perform_move_length [OF _ pm occupation_empty [OF vb o]] vb
      by (simp add: valid_board_def)
    then show ?thesis using ms e' by simp
  qed
  then show ?thesis using e js av by simp
qed

lemma try_piece_inv:
  assumes vb: "valid_board b" and item: "item \<in> set (sparse_board b)"
    and st: "try_piece b p item acc = Inr acc'"
    and inv: "(\<forall>c\<in>set (fst acc). length (sparse_board c) = length (sparse_board b))
       \<and> (\<forall>c\<in>set (snd acc). length (sparse_board c) < length (sparse_board b))
       \<and> (snd acc \<noteq> [] \<longrightarrow> jump_available b p)"
  shows "(\<forall>c\<in>set (fst acc'). length (sparse_board c) = length (sparse_board b))
       \<and> (\<forall>c\<in>set (snd acc'). length (sparse_board c) < length (sparse_board b))
       \<and> (snd acc' \<noteq> [] \<longrightarrow> jump_available b p)"
proof -
  obtain x y val where i: "item = ((x, y), val)" by (cases item) auto
  show ?thesis
  proof (cases "val * p > 0")
    case False
    then show ?thesis using st inv i by (simp add: try_piece_def)
  next
    case True
    then have fe: "fold_err (try_move b p x y val) (potential_moves (val * p = 2) p) acc
                     = Inr acc'"
      using st i by (simp add: try_piece_def)
    show ?thesis
    proof (rule fold_err_inv [OF fe])
      show "(\<forall>c\<in>set (fst acc). length (sparse_board c) = length (sparse_board b))
       \<and> (\<forall>c\<in>set (snd acc). length (sparse_board c) < length (sparse_board b))
       \<and> (snd acc \<noteq> [] \<longrightarrow> jump_available b p)" by (rule inv)
    next
      fix m a a'
      assume m: "m \<in> set (potential_moves (val * p = 2) p)"
        and a: "(\<forall>c\<in>set (fst a). length (sparse_board c) = length (sparse_board b))
           \<and> (\<forall>c\<in>set (snd a). length (sparse_board c) < length (sparse_board b))
           \<and> (snd a \<noteq> [] \<longrightarrow> jump_available b p)"
        and t: "try_move b p x y val m a = Inr a'"
      obtain ms js ms' js' where aa: "a = (ms, js)" "a' = (ms', js')"
        by (cases a, cases a') auto
      show "(\<forall>c\<in>set (fst a'). length (sparse_board c) = length (sparse_board b))
           \<and> (\<forall>c\<in>set (snd a'). length (sparse_board c) < length (sparse_board b))
           \<and> (snd a' \<noteq> [] \<longrightarrow> jump_available b p)"
        using try_move_inv [OF vb _ True m, of x y ms js ms' js'] item i t a aa by simp
    qed
  qed
qed

lemma try_move_keeps_jumps:
  "try_move b p x y val m a = Inr a' \<Longrightarrow> snd a \<noteq> [] \<Longrightarrow> snd a' \<noteq> []"
  using try_move_cases [of b p x y val m "fst a" "snd a" "fst a'" "snd a'"] by auto

lemma try_move_adds_jump:
  assumes "try_move b p x y val m a = Inr a'" and "can_jump b x y m p"
  shows "snd a' \<noteq> []"
proof -
  from try_move_cases [of b p x y val m "fst a" "snd a" "fst a'" "snd a'"] assms
  obtain further where f: "follow_jump b x y m (val * p = 2) p = Inr further"
    and e: "snd a' = snd a @ further"
    by auto
  show ?thesis using follow_jump_fewer [OF f] e by simp
qed

lemma try_piece_keeps_jumps:
  assumes "try_piece b p item a = Inr a'" and "snd a \<noteq> []"
  shows "snd a' \<noteq> []"
proof -
  obtain x y val where i: "item = ((x, y), val)" by (cases item) auto
  show ?thesis
  proof (cases "val * p > 0")
    case False
    then show ?thesis using assms i by (simp add: try_piece_def)
  next
    case True
    then have fe: "fold_err (try_move b p x y val) (potential_moves (val * p = 2) p) a = Inr a'"
      using assms(1) i by (simp add: try_piece_def)
    show ?thesis
      by (rule fold_err_inv [OF fe, where P = "\<lambda>a. snd a \<noteq> []"])
         (use assms(2) try_move_keeps_jumps in blast)+
  qed
qed

lemma try_piece_adds_jump:
  assumes st: "try_piece b p ((x, y), val) a = Inr a'" and own: "val * p > 0"
    and m: "m \<in> set (potential_moves (val * p = 2) p)" and cj: "can_jump b x y m p"
  shows "snd a' \<noteq> []"
proof -
  have fe: "fold_err (try_move b p x y val) (potential_moves (val * p = 2) p) a = Inr a'"
    using st own by (simp add: try_piece_def)
  show ?thesis
  proof (rule fold_err_reach [OF fe m, where Q = "\<lambda>a. snd a \<noteq> []"])
    fix c c' assume "try_move b p x y val m c = Inr c'"
    then show "snd c' \<noteq> []" using cj by (rule try_move_adds_jump)
  next
    fix z c c' assume "snd c \<noteq> []" "try_move b p x y val z c = Inr c'"
    then show "snd c' \<noteq> []" using try_move_keeps_jumps by blast
  qed
qed

lemma set_unique_successors: "set (unique_successors H xs seen) \<subseteq> set xs"
  by (induction xs arbitrary: seen) auto

lemma unique_successors_nonempty: "xs \<noteq> [] \<Longrightarrow> unique_successors H xs {} \<noteq> []"
  by (cases xs) auto

text \<open>
  On a board of the data model the successor generator raises no error: every square
  it deletes holds a piece, in the first jump and in every continuation.
\<close>

lemma fold_err_total:
  assumes "\<And>x a. x \<in> set xs \<Longrightarrow> \<exists>a'. f x a = Inr a'"
  shows "\<exists>t. fold_err f xs s = Inr t"
  using assms
proof (induction xs arbitrary: s)
  case Nil
  then show ?case by simp
next
  case (Cons x xs)
  from Cons.prems [of x s] obtain s' where s': "f x s = Inr s'" by auto
  from Cons.IH [of s'] Cons.prems obtain t where "fold_err f xs s' = Inr t" by auto
  then show ?case using s' by simp
qed

lemma occupation_piece:
  assumes "occupation b loc = Some mo" and "mo \<noteq> 0"
  shows "map_of (sparse_board b) loc = Some mo"
  using assms by (auto simp: occupation_def dict_get_def split: if_splits option.splits)

lemma new_val_piece:
  "val \<in> {1, 2, - 1, - 2} \<Longrightarrow> new_val b val dy \<in> {1, 2, - 1, - 2}"
  by (auto simp: new_val_def)

lemma new_val_sign: "0 < new_val b val dy * p \<longleftrightarrow> 0 < val * p"
  by (auto simp: new_val_def Let_def zero_less_mult_iff)

lemma valid_board_value:
  assumes "valid_board b" and "map_of (sparse_board b) k = Some v"
  shows "v \<in> {1, 2, - 1, - 2}"
proof -
  have "(k, v) \<in> set (sparse_board b)" using assms(2) by (rule map_of_SomeD)
  then have "v \<in> set (map snd (sparse_board b))" by force
  then show ?thesis using assms(1) by (auto simp: valid_board_def)
qed

lemma perform_jump_result:
  assumes vb: "valid_board b"
    and v: "map_of (sparse_board b) (x, y) = Some val"
    and w: "map_of (sparse_board b) (x + fst m, y + snd m) = Some mo"
    and ne: "(x + fst m, y + snd m) \<noteq> (x, y)"
  shows "\<exists>nb. perform_jump b x y m = Inr nb \<and> valid_board nb
           \<and> width nb = width b \<and> height nb = height b
           \<and> map_of (sparse_board nb) (x + fst m * 2, y + snd m * 2)
               = Some (new_val b val (y + snd m * 2))
           \<and> (\<forall>k. k \<noteq> (x, y) \<and> k \<noteq> (x + fst m, y + snd m)
                    \<and> k \<noteq> (x + fst m * 2, y + snd m * 2)
                 \<longrightarrow> map_of (sparse_board nb) k = map_of (sparse_board b) k)"
proof -
  let ?d2 = "AList.delete (x + fst m, y + snd m) (AList.delete (x, y) (sparse_board b))"
  let ?nd = "AList.update (x + fst m * 2, y + snd m * 2) (new_val b val (y + snd m * 2)) ?d2"
  let ?nb = "b\<lparr>sparse_board := ?nd\<rparr>"
  have w1: "map_of (AList.delete (x, y) (sparse_board b)) (x + fst m, y + snd m) = Some mo"
    using w ne by (simp add: AList.delete_conv')
  have pj: "perform_jump b x y m = Inr ?nb"
    using v w1 by (simp add: perform_jump_def)
  have dist: "distinct (map fst ?nd)"
    using vb by (simp add: valid_board_def AList.distinct_update AList.distinct_delete)
  have vals: "u \<in> {1, 2, - 1, - 2}" if "u \<in> set (map snd ?nd)" for u
  proof -
    from that obtain k where "(k, u) \<in> set ?nd" by auto
    then have mu: "map_of ?nd k = Some u" using dist by (simp add: map_of_is_SomeI)
    show ?thesis
    proof (cases "k = (x + fst m * 2, y + snd m * 2)")
      case True
      then have "u = new_val b val (y + snd m * 2)" using mu by (simp add: AList.update_conv')
      then show ?thesis using new_val_piece [OF valid_board_value [OF vb v]] by simp
    next
      case False
      then have "map_of (sparse_board b) k = Some u"
        using mu by (auto simp: AList.update_conv' AList.delete_conv' split: if_splits)
      then show ?thesis by (rule valid_board_value [OF vb])
    qed
  qed
  have "valid_board ?nb" using dist vals by (simp add: valid_board_def)
  moreover have "map_of (sparse_board ?nb) (x + fst m * 2, y + snd m * 2)
               = Some (new_val b val (y + snd m * 2))"
    by (simp add: AList.update_conv')
  moreover have "\<forall>k. k \<noteq> (x, y) \<and> k \<noteq> (x + fst m, y + snd m)
                    \<and> k \<noteq> (x + fst m * 2, y + snd m * 2)
                 \<longrightarrow> map_of (sparse_board ?nb) k = map_of (sparse_board b) k"
    by (simp add: AList.update_conv' AList.delete_conv')
  ultimately show ?thesis using pj by (intro exI [of _ ?nb]) simp
qed

lemma can_jump_squares:
  assumes vb: "valid_board b" and cj: "can_jump b x y m p"
  shows "\<exists>mo. occupation b (x + fst m, y + snd m) = Some mo \<and> mo * p < 0
           \<and> map_of (sparse_board b) (x + fst m, y + snd m) = Some mo"
    and "occupation b (x + fst m * 2, y + snd m * 2) = Some 0"
    and "map_of (sparse_board b) (x + fst m * 2, y + snd m * 2) = None"
proof -
  from cj obtain mo where o: "occupation b (x + fst m, y + snd m) = Some mo" and s: "mo * p < 0"
    and j: "occupation b (x + fst m * 2, y + snd m * 2) = Some 0"
    by (auto simp: can_jump_def Let_def split: option.splits)
  have "mo \<noteq> 0" using s by auto
  then show "\<exists>mo. occupation b (x + fst m, y + snd m) = Some mo \<and> mo * p < 0
           \<and> map_of (sparse_board b) (x + fst m, y + snd m) = Some mo"
    using o s occupation_piece [OF o] by blast
  show "occupation b (x + fst m * 2, y + snd m * 2) = Some 0" by (rule j)
  show "map_of (sparse_board b) (x + fst m * 2, y + snd m * 2) = None"
    by (rule occupation_empty [OF vb j])
qed


lemma potential_moves_nonzero: "m \<in> set (potential_moves k p) \<Longrightarrow> fst m = 1 \<or> fst m = - 1"
  by (auto simp: potential_moves_def split: if_splits)

lemma follow_jump_total:
  "valid_board b \<Longrightarrow> map_of (sparse_board b) (x, y) = Some val \<Longrightarrow> 0 < val * p
     \<Longrightarrow> can_jump b x y m p \<Longrightarrow> \<exists>ss. follow_jump b x y m k p = Inr ss"
proof (induction b x y m k p arbitrary: val rule: follow_jump.induct)
  case (1 b x y move k p)
  note vb = "1.prems"(1) and v = "1.prems"(2) and own = "1.prems"(3) and cj = "1.prems"(4)
  let ?nx = "x + fst move * 2" and ?ny = "y + snd move * 2"
  from can_jump_squares [OF vb cj] obtain mo where
    mo: "map_of (sparse_board b) (x + fst move, y + snd move) = Some mo" "mo * p < 0"
    and landing: "map_of (sparse_board b) (?nx, ?ny) = None"
    by blast
  have ne: "(x + fst move, y + snd move) \<noteq> (x, y)"
  proof
    assume "(x + fst move, y + snd move) = (x, y)"
    then have "mo = val" using mo(1) v by simp
    then show False using mo(2) own by simp
  qed
  from perform_jump_result [OF vb v mo(1) ne] obtain nb where
    pj: "perform_jump b x y move = Inr nb" and vnb: "valid_board nb"
    and dims: "width nb = width b" "height nb = height b"
    and at: "map_of (sparse_board nb) (?nx, ?ny) = Some (new_val b val ?ny)"
    and same: "\<forall>k. k \<noteq> (x, y) \<and> k \<noteq> (x + fst move, y + snd move) \<and> k \<noteq> (?nx, ?ny)
                 \<longrightarrow> map_of (sparse_board nb) k = map_of (sparse_board b) k"
    by blast
  have own': "0 < new_val b val ?ny * p" using own by (simp add: new_val_sign)
  have step: "\<exists>a'. (if can_jump b ?nx ?ny m' p then
                (case follow_jump nb ?nx ?ny m' k p of
                   Inl e \<Rightarrow> Inl e
                 | Inr further \<Rightarrow> Inr (a @ further))
              else Inr a) = Inr a'"
    if m': "m' \<in> set (potential_moves k p)" for m' a
  proof (cases "can_jump b ?nx ?ny m' p")
    case False
    then show ?thesis by simp
  next
    case True
    let ?s1 = "(?nx + fst m', ?ny + snd m')" and ?s2 = "(?nx + fst m' * 2, ?ny + snd m' * 2)"
    from can_jump_squares [OF vb True] obtain mo' where
      o1: "occupation b ?s1 = Some mo'" and s1: "mo' * p < 0"
      and p1: "map_of (sparse_board b) ?s1 = Some mo'"
      and o2: "occupation b ?s2 = Some 0"
      and p2: "map_of (sparse_board b) ?s2 = None"
      by blast
    have nz: "fst m' = 1 \<or> fst m' = - 1" using m' by (rule potential_moves_nonzero)
    have s2a: "?s2 \<noteq> (x, y)" using p2 v by (metis option.distinct(1))
    have s2b: "?s2 \<noteq> (x + fst move, y + snd move)"
      using p2 mo(1) by (metis option.distinct(1))
    have s2c: "?s2 \<noteq> (?nx, ?ny)" using nz by auto
    have s1a: "?s1 \<noteq> (x, y)"
    proof
      assume "?s1 = (x, y)"
      then have "mo' = val" using p1 v by (metis option.inject)
      then show False using s1 own by simp
    qed
    have s1b: "?s1 \<noteq> (x + fst move, y + snd move)"
    proof
      assume "?s1 = (x + fst move, y + snd move)"
      then have "?s2 = (x, y)" by auto
      then show False using s2a by simp
    qed
    have s1c: "?s1 \<noteq> (?nx, ?ny)" using nz by auto
    have e1: "map_of (sparse_board nb) ?s1 = map_of (sparse_board b) ?s1"
      using same s1a s1b s1c by blast
    have e2: "map_of (sparse_board nb) ?s2 = map_of (sparse_board b) ?s2"
      using same s2a s2b s2c by blast
    have o1': "occupation nb ?s1 = occupation b ?s1"
      using e1 dims by (simp add: occupation_def dict_get_def)
    have o2': "occupation nb ?s2 = occupation b ?s2"
      using e2 dims by (simp add: occupation_def dict_get_def)
    have "can_jump nb ?nx ?ny m' p = can_jump b ?nx ?ny m' p"
      by (simp only: can_jump_def Let_def o1' o2')
    then have cj': "can_jump nb ?nx ?ny m' p" using True by simp
    from "1.IH" [OF pj refl refl m' True vnb at own' cj']
    obtain further where "follow_jump nb ?nx ?ny m' k p = Inr further" by blast
    then show ?thesis using True by simp
  qed
  from fold_err_total [of "potential_moves k p"
      "\<lambda>m' a. if can_jump b ?nx ?ny m' p then
                (case follow_jump nb ?nx ?ny m' k p of
                   Inl e \<Rightarrow> Inl e
                 | Inr further \<Rightarrow> Inr (a @ further))
              else Inr a" "[]"] step
  obtain acc where "fold_err (\<lambda>m' a. if can_jump b ?nx ?ny m' p then
                (case follow_jump nb ?nx ?ny m' k p of
                   Inl e \<Rightarrow> Inl e
                 | Inr further \<Rightarrow> Inr (a @ further))
              else Inr a) (potential_moves k p) [] = Inr acc"
    by blast
  then show ?case using pj by (simp add: follow_jump.simps [of b x y move k p] Let_def)
qed

lemma try_move_total:
  assumes vb: "valid_board b" and v: "map_of (sparse_board b) (x, y) = Some val"
    and own: "0 < val * p"
  shows "\<exists>a'. try_move b p x y val m a = Inr a'"
proof -
  obtain ms js where a: "a = (ms, js)" by (cases a) auto
  show ?thesis
  proof (cases "occupation b (x + fst m, y + snd m)")
    case None
    then show ?thesis using a by (simp add: try_move_def)
  next
    case (Some mo)
    show ?thesis
    proof (cases "mo = 0")
      case True
      have "\<exists>nb. perform_move b x y m = Inr nb" using v by (simp add: perform_move_def)
      then show ?thesis using a Some True by (auto simp: try_move_def)
    next
      case False
      show ?thesis
      proof (cases "can_jump b x y m p")
        case cj: True
        from follow_jump_total [OF vb v own cj] obtain ss where
          "follow_jump b x y m (val * p = 2) p = Inr ss" by blast
        then show ?thesis using a Some False cj by (simp add: try_move_def)
      next
        case ncj: False
        then show ?thesis using a Some False by (simp add: try_move_def)
      qed
    qed
  qed
qed

lemma get_successors_total:
  assumes vb: "valid_board b"
  shows "\<exists>succs. get_successors H b s = Inr succs"
proof -
  have piece: "\<exists>a'. try_piece b s item a = Inr a'" if "item \<in> set (sparse_board b)" for item a
  proof -
    obtain x y val where i: "item = ((x, y), val)" by (cases item) auto
    have v: "map_of (sparse_board b) (x, y) = Some val"
      using that i vb by (simp add: valid_board_def map_of_is_SomeI)
    show ?thesis
    proof (cases "0 < val * s")
      case False
      then show ?thesis using i by (simp add: try_piece_def)
    next
      case True
      from fold_err_total [of "potential_moves (val * s = 2) s" "try_move b s x y val" a]
        try_move_total [OF vb v True]
      show ?thesis using i True by (simp add: try_piece_def)
    qed
  qed
  from fold_err_total [of "sparse_board b" "try_piece b s" "([], [])"] piece
  obtain t where "fold_err (try_piece b s) (sparse_board b) ([], []) = Inr t" by blast
  then show ?thesis by (cases t) (simp add: get_successors_def Let_def)
qed

text \<open>
  Claim C1. Forced capture is exclusive. For a board of the data model and a side,
  \<^verbatim>\<open>get_successors\<close> returns a list of successors, and a jump is available exactly
  when that list holds a position with fewer pieces than the board; in that case the
  list is not empty and every element of it has strictly fewer pieces than the board
  (it comes from a jump), so no non-capture move is in it. With no jump available
  every successor has as many pieces as the board.
\<close>

theorem forced_capture_exclusive:
  assumes vb: "valid_board b"
  shows "\<exists>succs. get_successors H b s = Inr succs
       \<and> (jump_available b s \<longleftrightarrow>
            (\<exists>c\<in>set succs. length (sparse_board c) < length (sparse_board b)))
       \<and> (jump_available b s \<longrightarrow>
            succs \<noteq> [] \<and> (\<forall>c\<in>set succs. length (sparse_board c) < length (sparse_board b)))
       \<and> (\<not> jump_available b s \<longrightarrow>
            (\<forall>c\<in>set succs. length (sparse_board c) = length (sparse_board b)))"
proof -
  from get_successors_total [OF vb] obtain succs where gs: "get_successors H b s = Inr succs"
    by blast
  from gs obtain ms js where fe: "fold_err (try_piece b s) (sparse_board b) ([], []) = Inr (ms, js)"
    and su: "succs = unique_successors H (if length js > 0 then js else ms) {}"
    by (auto simp: get_successors_def Let_def split: sum.splits prod.splits)
  have inv: "(\<forall>c\<in>set (fst (ms, js)). length (sparse_board c) = length (sparse_board b))
       \<and> (\<forall>c\<in>set (snd (ms, js)). length (sparse_board c) < length (sparse_board b))
       \<and> (snd (ms, js) \<noteq> [] \<longrightarrow> jump_available b s)"
  proof (rule fold_err_inv [OF fe])
    show "(\<forall>c\<in>set (fst ([], [])). length (sparse_board c) = length (sparse_board b))
       \<and> (\<forall>c\<in>set (snd ([], [])). length (sparse_board c) < length (sparse_board b))
       \<and> (snd ([], []) \<noteq> [] \<longrightarrow> jump_available b s)" by simp
  next
    fix item a a'
    assume "item \<in> set (sparse_board b)"
      and "(\<forall>c\<in>set (fst a). length (sparse_board c) = length (sparse_board b))
       \<and> (\<forall>c\<in>set (snd a). length (sparse_board c) < length (sparse_board b))
       \<and> (snd a \<noteq> [] \<longrightarrow> jump_available b s)"
      and "try_piece b s item a = Inr a'"
    then show "(\<forall>c\<in>set (fst a'). length (sparse_board c) = length (sparse_board b))
       \<and> (\<forall>c\<in>set (snd a'). length (sparse_board c) < length (sparse_board b))
       \<and> (snd a' \<noteq> [] \<longrightarrow> jump_available b s)"
      using try_piece_inv [OF vb] by blast
  qed
  have av: "js \<noteq> []" if "jump_available b s"
  proof -
    from that obtain x y val m where item: "((x, y), val) \<in> set (sparse_board b)"
      and own: "val * s > 0" and m: "m \<in> set (potential_moves (val * s = 2) s)"
      and cj: "can_jump b x y m s"
      by (auto simp: jump_available_def)
    have "snd (ms, js) \<noteq> []"
    proof (rule fold_err_reach [OF fe item, where Q = "\<lambda>a. snd a \<noteq> []"])
      fix a a' assume "try_piece b s ((x, y), val) a = Inr a'"
      then show "snd a' \<noteq> []" using own m cj by (rule try_piece_adds_jump)
    next
      fix z a a' assume "snd a \<noteq> []" "try_piece b s z a = Inr a'"
      then show "snd a' \<noteq> []" using try_piece_keeps_jumps by blast
    qed
    then show ?thesis by simp
  qed
  have yes: "succs \<noteq> [] \<and> (\<forall>c\<in>set succs. length (sparse_board c) < length (sparse_board b))"
    if "jump_available b s"
  proof -
    have j: "js \<noteq> []" using av that .
    then have "succs = unique_successors H js {}" using su by simp
    then show ?thesis
      using j inv set_unique_successors [of H js "{}"] unique_successors_nonempty [of js H]
      by auto
  qed
  have no: "\<forall>c\<in>set succs. length (sparse_board c) = length (sparse_board b)"
    if "\<not> jump_available b s"
  proof -
    have "js = []" using inv that by auto
    then have "succs = unique_successors H ms {}" using su by simp
    then show ?thesis using inv set_unique_successors [of H ms "{}"] by auto
  qed
  have "(jump_available b s \<longleftrightarrow>
            (\<exists>c\<in>set succs. length (sparse_board c) < length (sparse_board b)))
       \<and> (jump_available b s \<longrightarrow>
            succs \<noteq> [] \<and> (\<forall>c\<in>set succs. length (sparse_board c) < length (sparse_board b)))
       \<and> (\<not> jump_available b s \<longrightarrow>
            (\<forall>c\<in>set succs. length (sparse_board c) = length (sparse_board b)))"
    using yes no by (metis less_irrefl list.set_intros(1) neq_Nil_conv)
  then show ?thesis using gs by blast
qed

theorem forced_capture_exclusive_witness:
  "valid_board \<lparr>width = 8, height = 8, sparse_board = [((2, 4), 1), ((3, 3), - 1), ((6, 6), 1)]\<rparr>
   \<and> get_successors (\<lambda>t. t)
        \<lparr>width = 8, height = 8, sparse_board = [((2, 4), 1), ((3, 3), - 1), ((6, 6), 1)]\<rparr> 1
       = Inr [\<lparr>width = 8, height = 8, sparse_board = [((6, 6), 1), ((4, 2), 1)]\<rparr>]
   \<and> jump_available
        \<lparr>width = 8, height = 8, sparse_board = [((2, 4), 1), ((3, 3), - 1), ((6, 6), 1)]\<rparr> 1"
proof -
  let ?b = "\<lparr>width = 8, height = 8, sparse_board = [((2, 4), 1), ((3, 3), - 1), ((6, 6), 1)]\<rparr>"
  let ?c = "\<lparr>width = 8, height = 8, sparse_board = [((6, 6), 1), ((4, 2), 1)]\<rparr>"
  have v: "valid_board ?b" by (simp add: valid_board_def)
  have g: "get_successors (\<lambda>t. t) ?b 1 = Inr [?c]" by code_simp
  show ?thesis using v g forced_capture_exclusive [OF v, of "\<lambda>t. t" 1] by auto
qed

section \<open>Promotion in the middle of a jump sequence\<close>










section \<open>Recovery of the best path\<close>

text \<open>
  The walk is a total function (its termination is proved with its definition), its
  result begins with the root, and no hash occurs twice among the boards after the
  root.
\<close>

lemma recover_loop_extends:
  "\<exists>ext. recover_loop H strat b player path in_path = path @ ext
         \<and> distinct (map (hash_board H) ext)
         \<and> set (map (hash_board H) ext) \<inter> in_path = {}"
proof (induction H strat b player path in_path rule: recover_loop.induct)
  case (1 H strat b player path in_path)
  show ?case
  proof (cases "map_of strat (hash_board H b, player)")
    case None
    then show ?thesis by (simp add: recover_loop.simps [of H strat b player path in_path])
  next
    case (Some e)
    obtain next_board sc where e: "e = (next_board, sc)" by (cases e) auto
    show ?thesis
    proof (cases "hash_board H next_board \<in> in_path")
      case True
      then show ?thesis using Some e
        by (simp add: recover_loop.simps [of H strat b player path in_path])
    next
      case False
      from "1.IH" [OF Some e [symmetric] False]
      obtain ext where ext: "recover_loop H strat next_board (player * - 1) (path @ [next_board])
                (insert (hash_board H next_board) in_path) = (path @ [next_board]) @ ext"
        and d: "distinct (map (hash_board H) ext)"
        and i: "set (map (hash_board H) ext) \<inter> insert (hash_board H next_board) in_path = {}"
        by blast
      have "recover_loop H strat b player path in_path = path @ (next_board # ext)"
        using Some e False ext
        by (simp add: recover_loop.simps [of H strat b player path in_path])
      moreover have "distinct (map (hash_board H) (next_board # ext))"
        using d i by auto
      moreover have "set (map (hash_board H) (next_board # ext)) \<inter> in_path = {}"
        using i False by auto
      ultimately show ?thesis by blast
    qed
  qed
qed

lemma recover_best_path_shape:
  "\<exists>ext. recover_best_path st H b player = b # ext \<and> distinct (map (hash_board H) ext)"
  using recover_loop_extends [of H "strategy st" b player "[b]" "{}"]
  by (auto simp: recover_best_path_def)

text \<open>
  Claim C3 says that no board hash occurs twice in the recovered path, the root
  included. \<^verbatim>\<open>path\<close> starts as \<^verbatim>\<open>[board]\<close> but \<^verbatim>\<open>in_path\<close> starts empty, so the hash of
  the root is not in \<^verbatim>\<open>in_path\<close> when the walk comes back to it. With two kings
  shuffling (red king (1, 1) to (2, 2) and back, black king (6, 6) to (5, 5) and back)
  the strategy leads from the root back to the root after four moves, and the path
  returned holds the root twice. The hash of a board is its sorted item list here.
\<close>

theorem recover_best_path_repeats_root:
  "recover_best_path
     \<lparr>use_score_cache = True, score_cache = Map.empty, cache_hits = 0,
      strategy =
        [((hash_board (\<lambda>t. t) \<lparr>width = 8, height = 8, sparse_board = [((1, 1), 2), ((6, 6), - 2)]\<rparr>, 1),
          (\<lparr>width = 8, height = 8, sparse_board = [((6, 6), - 2), ((2, 2), 2)]\<rparr>, Finite 0)),
         ((hash_board (\<lambda>t. t) \<lparr>width = 8, height = 8, sparse_board = [((6, 6), - 2), ((2, 2), 2)]\<rparr>, - 1),
          (\<lparr>width = 8, height = 8, sparse_board = [((2, 2), 2), ((5, 5), - 2)]\<rparr>, Finite 0)),
         ((hash_board (\<lambda>t. t) \<lparr>width = 8, height = 8, sparse_board = [((2, 2), 2), ((5, 5), - 2)]\<rparr>, 1),
          (\<lparr>width = 8, height = 8, sparse_board = [((5, 5), - 2), ((1, 1), 2)]\<rparr>, Finite 0)),
         ((hash_board (\<lambda>t. t) \<lparr>width = 8, height = 8, sparse_board = [((5, 5), - 2), ((1, 1), 2)]\<rparr>, - 1),
          (\<lparr>width = 8, height = 8, sparse_board = [((1, 1), 2), ((6, 6), - 2)]\<rparr>, Finite 0))]\<rparr>
     (\<lambda>t. t) \<lparr>width = 8, height = 8, sparse_board = [((1, 1), 2), ((6, 6), - 2)]\<rparr> 1
   = [\<lparr>width = 8, height = 8, sparse_board = [((1, 1), 2), ((6, 6), - 2)]\<rparr>,
      \<lparr>width = 8, height = 8, sparse_board = [((6, 6), - 2), ((2, 2), 2)]\<rparr>,
      \<lparr>width = 8, height = 8, sparse_board = [((2, 2), 2), ((5, 5), - 2)]\<rparr>,
      \<lparr>width = 8, height = 8, sparse_board = [((5, 5), - 2), ((1, 1), 2)]\<rparr>,
      \<lparr>width = 8, height = 8, sparse_board = [((1, 1), 2), ((6, 6), - 2)]\<rparr>]"
  by code_simp

section \<open>Reading a board: unknown characters\<close>

lemma char_to_int_None: "char_to_int c = None \<longleftrightarrow> c \<notin> set ''rRbB''"
  by (simp add: char_to_int_def)

lemma read_row_Inr:
  "read_row y x cs d = Inr d' \<Longrightarrow> \<forall>c\<in>set cs. c \<in> set ''.rRbB''"
proof (induction cs arbitrary: x d)
  case Nil
  then show ?case by simp
next
  case (Cons c cs)
  show ?case
  proof (cases "c = CHR ''.''")
    case True
    then show ?thesis using Cons by auto
  next
    case False
    with Cons.prems obtain v where v: "char_to_int c = Some v"
      and r: "read_row y (x + 1) cs (AList.update (x, y) v d) = Inr d'"
      by (auto split: option.splits)
    have "c \<in> set ''rRbB''" using v char_to_int_None [of c] by auto
    then show ?thesis using Cons.IH [OF r] by auto
  qed
qed

lemma read_row_Inl: "read_row y x cs d = Inl e \<Longrightarrow> e = KeyError"
  by (induction cs arbitrary: x d) (auto split: if_splits option.splits)

lemma read_rows_Inr:
  "read_rows y ls d = Inr d' \<Longrightarrow> \<forall>l\<in>set ls. \<forall>c\<in>set (rstrip l). c \<in> set ''.rRbB''"
proof (induction ls arbitrary: y d)
  case Nil
  then show ?case by simp
next
  case (Cons l ls)
  from Cons.prems obtain d1 where 1: "read_row y 0 (rstrip l) d = Inr d1"
    and 2: "read_rows (y + 1) ls d1 = Inr d'"
    by (auto split: sum.splits)
  show ?case using read_row_Inr [OF 1] Cons.IH [OF 2] by simp
qed

lemma read_rows_Inl: "read_rows y ls d = Inl e \<Longrightarrow> e = KeyError"
proof (induction ls arbitrary: y d)
  case Nil
  then show ?case by simp
next
  case (Cons l ls)
  then show ?case using read_row_Inl by (auto split: sum.splits)
qed

lemma read_lines_bad:
  assumes "l \<in> set ls" and "c \<in> set (rstrip l)" and "c \<notin> set ''.rRbB''"
  shows "read_lines ls = Inl KeyError"
proof (cases "read_rows 0 ls (sparse_board (SparseBoard 8 8))")
  case (Inl e)
  then show ?thesis using read_rows_Inl [OF Inl] by (simp add: read_lines_def)
next
  case (Inr d')
  then show ?thesis using read_rows_Inr [OF Inr] assms by blast
qed

text \<open>
  Claim C9 says that every input with a character outside \<^verbatim>\<open>.rRbB\<close>, line terminators
  apart, is rejected. A space at the end of a line is such a character, and the
  readers accept it: \<^verbatim>\<open>rstrip\<close> removes it before the characters are looked up.
\<close>

theorem trailing_space_accepted_counterexample:
  "CHR '' '' \<in> set ''r '' \<and> CHR '' '' \<notin> set ''.rRbB'' \<and> \<not> is_linebreak (CHR '' '')
   \<and> read_from_string ''r '' = Inr \<lparr>width = 8, height = 8, sparse_board = [((0, 0), 1)]\<rparr>
   \<and> read_from_file [''r ''] = Inr \<lparr>width = 8, height = 8, sparse_board = [((0, 0), 1)]\<rparr>"
  by (simp add: read_from_string_def read_from_file_def splitlines_def is_linebreak_def
        read_lines_def rstrip_def is_space_def char_to_int_def SparseBoard_def)

text \<open>
  Claim C9, as amended. When some line of the input, after its trailing white space is
  removed, holds a character outside \<^verbatim>\<open>.rRbB\<close>, both readers fail and return no board;
  the error is the \<^verbatim>\<open>KeyError\<close> of the lookup in \<^verbatim>\<open>char_to_int\<close> (the code has no
  error kind of its own for a bad format).
\<close>

theorem unknown_character_raises_KeyError:
  "((\<exists>l\<in>set (splitlines text). \<exists>c\<in>set (rstrip l). c \<notin> set ''.rRbB'')
      \<longrightarrow> read_from_string text = Inl KeyError)
   \<and> ((\<exists>l\<in>set file_lines. \<exists>c\<in>set (rstrip l). c \<notin> set ''.rRbB'')
      \<longrightarrow> read_from_file file_lines = Inl KeyError)"
  using read_lines_bad by (auto simp: read_from_string_def read_from_file_def)

theorem unknown_character_raises_KeyError_witness:
  "splitlines ''r.x'' = [''r.x''] \<and> rstrip ''r.x'' = ''r.x''
   \<and> read_from_string ''r.x'' = Inl KeyError
   \<and> read_from_file [''..b'', ''.?.''] = Inl KeyError"
proof -
  have 1: "splitlines ''r.x'' = [''r.x'']" by (simp add: splitlines_def is_linebreak_def)
  have 2: "rstrip ''r.x'' = ''r.x''" by (simp add: rstrip_def is_space_def)
  have 3: "rstrip ''.?.'' = ''.?.''" by (simp add: rstrip_def is_space_def)
  have a: "\<exists>l\<in>set (splitlines ''r.x''). \<exists>c\<in>set (rstrip l). c \<notin> set ''.rRbB''"
    using 1 2 by simp
  have b: "\<exists>l\<in>set [''..b'', ''.?.'']. \<exists>c\<in>set (rstrip l). c \<notin> set ''.rRbB''"
    using 3 by simp
  show ?thesis
    using 1 2 a b unknown_character_raises_KeyError [of "''r.x''" "[''..b'', ''.?.'']"]
    by blast
qed

section \<open>Rendering and reading back\<close>

text \<open>
  The character that \<^verbatim>\<open>__str__\<close> writes for a square, when \<^verbatim>\<open>int_to_char\<close> has one
  for its value.
\<close>

definition square_char :: "board \<Rightarrow> int \<Rightarrow> int \<Rightarrow> char" where
  "square_char b x y =
     (case int_to_char (dict_get (sparse_board b) (x, y) 0) of
        Some c \<Rightarrow> c | None \<Rightarrow> CHR ''.'')"

lemma str_row_loop:
  assumes "\<forall>x\<in>set xs. int_to_char (dict_get (sparse_board b) (x, y) 0) \<noteq> None"
  shows "fold_err (\<lambda>x acc. case int_to_char (dict_get (sparse_board b) (x, y) 0) of
                           None \<Rightarrow> Inl TypeError
                         | Some c \<Rightarrow> Inr (acc @ [c])) xs acc0
         = Inr (acc0 @ map (\<lambda>x. square_char b x y) xs)"
  using assms by (induction xs arbitrary: acc0) (auto simp: square_char_def)

lemma str_board_loop:
  assumes "\<forall>y\<in>set ys. \<forall>x\<in>set [0..width b - 1].
             int_to_char (dict_get (sparse_board b) (x, y) 0) \<noteq> None"
  shows "fold_err (\<lambda>y acc. case str_row b y acc of
                           Inl e \<Rightarrow> Inl e
                         | Inr acc' \<Rightarrow> Inr (acc' @ [CHR 0x0A])) ys acc0
         = Inr (acc0 @ concat (map (\<lambda>y. map (\<lambda>x. square_char b x y) [0..width b - 1]
                                        @ [CHR 0x0A]) ys))"
  using assms
proof (induction ys arbitrary: acc0)
  case Nil
  then show ?case by simp
next
  case (Cons y ys)
  have "str_row b y acc0 = Inr (acc0 @ map (\<lambda>x. square_char b x y) [0..width b - 1])"
    unfolding str_row_def using Cons.prems by (intro str_row_loop) simp
  then show ?case using Cons by simp
qed

lemma splitlines_from_row:
  assumes "\<forall>c\<in>set row. \<not> is_linebreak c"
  shows "splitlines_from cur (row @ CHR 0x0A # rest) = (cur @ row) # splitlines_from [] rest"
  using assms
proof (induction row arbitrary: cur)
  case Nil
  then show ?case by (simp add: is_linebreak_def)
next
  case (Cons c row)
  then have "\<not> is_linebreak c" by simp
  moreover from this have "c \<noteq> CHR 0x0D" by (auto simp: is_linebreak_def)
  ultimately show ?case using Cons by simp
qed

lemma splitlines_rows:
  assumes "\<forall>row\<in>set rows. \<forall>c\<in>set row. \<not> is_linebreak c"
  shows "splitlines (concat (map (\<lambda>row. row @ [CHR 0x0A]) rows)) = rows"
  unfolding splitlines_def using assms
  by (induction rows) (simp_all add: splitlines_from_row)

lemma rstrip_id:
  assumes "\<forall>c\<in>set row. \<not> is_space c"
  shows "rstrip row = row"
proof -
  have "dropWhile is_space (rev row) = rev row"
    using assms by (cases "rev row") auto
  then show ?thesis by (simp add: rstrip_def)
qed


lemma char_to_int_allowed:
  "c \<in> set ''.rRbB'' \<Longrightarrow> c \<noteq> CHR ''.'' \<Longrightarrow> \<exists>v. char_to_int c = Some v"
  by (auto simp: char_to_int_def)

lemma read_row_upto:
  assumes "\<forall>x\<in>set [x0..x1]. g x \<in> set ''.rRbB''"
  shows "\<exists>d'. read_row y x0 (map g [x0..x1]) d = Inr d'
           \<and> (\<forall>k. map_of d' k =
                  (if snd k = y \<and> x0 \<le> fst k \<and> fst k \<le> x1 \<and> g (fst k) \<noteq> CHR ''.''
                   then char_to_int (g (fst k)) else map_of d k))"
  using assms
proof (induction x0 x1 arbitrary: d rule: upto.induct)
  case (1 i j)
  show ?case
  proof (cases "i \<le> j")
    case False
    then show ?thesis by auto
  next
    case True
    then have up: "[i..j] = i # [i + 1..j]" by (simp add: upto_rec1)
    have rest: "\<forall>x\<in>set [i + 1..j]. g x \<in> set ''.rRbB''" using "1.prems" by simp
    have gi: "g i \<in> set ''.rRbB''" using "1.prems" True by simp
    show ?thesis
    proof (cases "g i = CHR ''.''")
      case dot: True
      from "1.IH" [OF True rest, of d] obtain d' where
        r: "read_row y (i + 1) (map g [i + 1..j]) d = Inr d'"
        and m: "\<forall>k. map_of d' k =
                  (if snd k = y \<and> i + 1 \<le> fst k \<and> fst k \<le> j \<and> g (fst k) \<noteq> CHR ''.''
                   then char_to_int (g (fst k)) else map_of d k)"
        by blast
      have "read_row y i (map g [i..j]) d = Inr d'" using up dot r by simp
      moreover have "\<forall>k. map_of d' k =
                  (if snd k = y \<and> i \<le> fst k \<and> fst k \<le> j \<and> g (fst k) \<noteq> CHR ''.''
                   then char_to_int (g (fst k)) else map_of d k)"
      proof
        fix k show "map_of d' k =
                  (if snd k = y \<and> i \<le> fst k \<and> fst k \<le> j \<and> g (fst k) \<noteq> CHR ''.''
                   then char_to_int (g (fst k)) else map_of d k)"
          using m [rule_format, of k] dot by (cases "fst k = i") auto
      qed
      ultimately show ?thesis by blast
    next
      case nodot: False
      from char_to_int_allowed [OF gi nodot] obtain v where v: "char_to_int (g i) = Some v"
        by blast
      from "1.IH" [OF True rest, of "AList.update (i, y) v d"] obtain d' where
        r: "read_row y (i + 1) (map g [i + 1..j]) (AList.update (i, y) v d) = Inr d'"
        and m: "\<forall>k. map_of d' k =
                  (if snd k = y \<and> i + 1 \<le> fst k \<and> fst k \<le> j \<and> g (fst k) \<noteq> CHR ''.''
                   then char_to_int (g (fst k)) else map_of (AList.update (i, y) v d) k)"
        by blast
      have "read_row y i (map g [i..j]) d = Inr d'" using up nodot v r by simp
      moreover have "\<forall>k. map_of d' k =
                  (if snd k = y \<and> i \<le> fst k \<and> fst k \<le> j \<and> g (fst k) \<noteq> CHR ''.''
                   then char_to_int (g (fst k)) else map_of d k)"
      proof
        fix k show "map_of d' k =
                  (if snd k = y \<and> i \<le> fst k \<and> fst k \<le> j \<and> g (fst k) \<noteq> CHR ''.''
                   then char_to_int (g (fst k)) else map_of d k)"
        proof (cases "k = (i, y)")
          case True
          then show ?thesis using m [rule_format, of k] nodot v \<open>i \<le> j\<close>
            by (simp add: AList.update_conv')
        next
          case False
          then have "fst k \<noteq> i \<or> snd k \<noteq> y" by (cases k) auto
          then show ?thesis using m [rule_format, of k] False
            by (auto simp: AList.update_conv')
        qed
      qed
      ultimately show ?thesis by blast
    qed
  qed
qed


lemma read_rows_upto:
  assumes "\<forall>y\<in>set [y0..y1]. \<forall>x\<in>set [0..x1]. g y x \<in> set ''.rRbB''"
  shows "\<exists>d'. read_rows y0 (map (\<lambda>y. map (g y) [0..x1]) [y0..y1]) d = Inr d'
           \<and> (\<forall>k. map_of d' k =
                  (if y0 \<le> snd k \<and> snd k \<le> y1 \<and> 0 \<le> fst k \<and> fst k \<le> x1
                      \<and> g (snd k) (fst k) \<noteq> CHR ''.''
                   then char_to_int (g (snd k) (fst k)) else map_of d k))"
  using assms
proof (induction y0 y1 arbitrary: d rule: upto.induct)
  case (1 i j)
  show ?case
  proof (cases "i \<le> j")
    case False
    then show ?thesis by auto
  next
    case True
    then have up: "[i..j] = i # [i + 1..j]" by (simp add: upto_rec1)
    have rest: "\<forall>y\<in>set [i + 1..j]. \<forall>x\<in>set [0..x1]. g y x \<in> set ''.rRbB''"
      using "1.prems" by simp
    have row: "\<forall>x\<in>set [0..x1]. g i x \<in> set ''.rRbB''" using "1.prems" True by simp
    have "\<forall>c\<in>set (map (g i) [0..x1]). \<not> is_space c"
      using row by (auto simp: is_space_def)
    then have strip: "rstrip (map (g i) [0..x1]) = map (g i) [0..x1]" by (rule rstrip_id)
    from read_row_upto [OF row, of i d] obtain d1 where
      r1: "read_row i 0 (map (g i) [0..x1]) d = Inr d1"
      and m1: "\<forall>k. map_of d1 k =
                  (if snd k = i \<and> 0 \<le> fst k \<and> fst k \<le> x1 \<and> g i (fst k) \<noteq> CHR ''.''
                   then char_to_int (g i (fst k)) else map_of d k)"
      by blast
    from "1.IH" [OF True rest, of d1] obtain d' where
      r: "read_rows (i + 1) (map (\<lambda>y. map (g y) [0..x1]) [i + 1..j]) d1 = Inr d'"
      and m: "\<forall>k. map_of d' k =
                  (if i + 1 \<le> snd k \<and> snd k \<le> j \<and> 0 \<le> fst k \<and> fst k \<le> x1
                      \<and> g (snd k) (fst k) \<noteq> CHR ''.''
                   then char_to_int (g (snd k) (fst k)) else map_of d1 k)"
      by blast
    have "read_rows i (map (\<lambda>y. map (g y) [0..x1]) [i..j]) d = Inr d'"
      using up strip r1 r by simp
    moreover have "\<forall>k. map_of d' k =
                  (if i \<le> snd k \<and> snd k \<le> j \<and> 0 \<le> fst k \<and> fst k \<le> x1
                      \<and> g (snd k) (fst k) \<noteq> CHR ''.''
                   then char_to_int (g (snd k) (fst k)) else map_of d k)"
    proof
      fix k show "map_of d' k =
                  (if i \<le> snd k \<and> snd k \<le> j \<and> 0 \<le> fst k \<and> fst k \<le> x1
                      \<and> g (snd k) (fst k) \<noteq> CHR ''.''
                   then char_to_int (g (snd k) (fst k)) else map_of d k)"
        using m [rule_format, of k] m1 [rule_format, of k] True
        by (cases "snd k = i") auto
    qed
    ultimately show ?thesis by blast
  qed
qed

lemma allowed_plain:
  "c \<in> set ''.rRbB'' \<Longrightarrow> \<not> is_linebreak c \<and> \<not> is_space c"
  by (auto simp: is_linebreak_def is_space_def)

lemma square_char_cases:
  assumes "\<forall>v\<in>set (map snd (sparse_board b)). v \<in> {1, 2, - 1, - 2}"
  shows "int_to_char (dict_get (sparse_board b) (x, y) 0) \<noteq> None"
    and "square_char b x y \<in> set ''.rRbB''"
    and "square_char b x y \<noteq> CHR ''.'' \<Longrightarrow>
           char_to_int (square_char b x y) = map_of (sparse_board b) (x, y)"
    and "square_char b x y = CHR ''.'' \<Longrightarrow> map_of (sparse_board b) (x, y) = None"
proof -
  have c: "map_of (sparse_board b) (x, y) = None
         \<or> (\<exists>v. map_of (sparse_board b) (x, y) = Some v \<and> v \<in> {1, 2, - 1, - 2})"
  proof (cases "map_of (sparse_board b) (x, y)")
    case None
    then show ?thesis by simp
  next
    case (Some v)
    then have "((x, y), v) \<in> set (sparse_board b)" by (rule map_of_SomeD)
    then have "v \<in> set (map snd (sparse_board b))" by force
    then show ?thesis using assms Some by blast
  qed
  show "int_to_char (dict_get (sparse_board b) (x, y) 0) \<noteq> None"
    using c by (auto simp: dict_get_def int_to_char_def)
  show "square_char b x y \<in> set ''.rRbB''"
    using c by (auto simp: square_char_def dict_get_def int_to_char_def)
  show "square_char b x y \<noteq> CHR ''.'' \<Longrightarrow>
           char_to_int (square_char b x y) = map_of (sparse_board b) (x, y)"
    using c by (auto simp: square_char_def dict_get_def int_to_char_def char_to_int_def)
  show "square_char b x y = CHR ''.'' \<Longrightarrow> map_of (sparse_board b) (x, y) = None"
    using c by (auto simp: square_char_def dict_get_def int_to_char_def)
qed

text \<open>
  Claim C8. For a board whose occupied squares all lie within its bounds (the 8 by 8
  bounds of a default board) and hold pieces, rendering succeeds, and parsing the
  rendered text yields a default-sized board with exactly the same mapping from
  occupied squares to values.
\<close>

theorem render_read_round_trip:
  assumes inb: "\<forall>k\<in>set (map fst (sparse_board b)).
                  0 \<le> fst k \<and> fst k < width b \<and> 0 \<le> snd k \<and> snd k < height b"
    and vals: "\<forall>v\<in>set (map snd (sparse_board b)). v \<in> {1, 2, - 1, - 2}"
  shows "\<exists>rendered b'. str_board b = Inr rendered \<and> read_from_string rendered = Inr b'
           \<and> map_of (sparse_board b') = map_of (sparse_board b)
           \<and> width b' = 8 \<and> height b' = 8"
proof -
  let ?g = "\<lambda>y x. square_char b x y"
  let ?rows = "map (\<lambda>y. map (?g y) [0..width b - 1]) [0..height b - 1]"
  let ?text = "concat (map (\<lambda>row. row @ [CHR 0x0A]) ?rows)"
  have allowed: "?g y x \<in> set ''.rRbB''" for x y
    by (rule square_char_cases(2) [OF vals])
  have "str_board b = Inr ([] @ concat (map (\<lambda>y. map (\<lambda>x. square_char b x y) [0..width b - 1]
                                        @ [CHR 0x0A]) [0..height b - 1]))"
    unfolding str_board_def
    by (rule str_board_loop) (use square_char_cases(1) [OF vals] in blast)
  then have render: "str_board b = Inr ?text"
    by (simp add: map_concat comp_def)
  have "\<forall>row\<in>set ?rows. \<forall>c\<in>set row. \<not> is_linebreak c"
  proof (intro ballI)
    fix row c assume "row \<in> set ?rows" "c \<in> set row"
    then obtain x y where "c = ?g y x" by auto
    then show "\<not> is_linebreak c" using allowed [of x y] allowed_plain [of c] by blast
  qed
  then have lines: "splitlines ?text = ?rows" by (rule splitlines_rows)
  from read_rows_upto [of 0 "height b - 1" "width b - 1" ?g "[]"] allowed
  obtain d' where r: "read_rows 0 ?rows [] = Inr d'"
    and m: "\<forall>k. map_of d' k =
              (if 0 \<le> snd k \<and> snd k \<le> height b - 1 \<and> 0 \<le> fst k \<and> fst k \<le> width b - 1
                  \<and> ?g (snd k) (fst k) \<noteq> CHR ''.''
               then char_to_int (?g (snd k) (fst k)) else map_of [] k)"
    by blast
  have read: "read_from_string ?text = Inr ((SparseBoard 8 8)\<lparr>sparse_board := d'\<rparr>)"
    using lines r by (simp add: read_from_string_def read_lines_def SparseBoard_def)
  have "map_of d' k = map_of (sparse_board b) k" for k
  proof (cases "0 \<le> snd k \<and> snd k \<le> height b - 1 \<and> 0 \<le> fst k \<and> fst k \<le> width b - 1")
    case True
    then show ?thesis
      using m [rule_format, of k] square_char_cases(3,4) [OF vals, of "fst k" "snd k"]
      by auto
  next
    case False
    have "map_of (sparse_board b) k = None"
    proof (cases "map_of (sparse_board b) k")
      case None
      then show ?thesis .
    next
      case (Some v)
      then have "(k, v) \<in> set (sparse_board b)" by (rule map_of_SomeD)
      then have "k \<in> set (map fst (sparse_board b))" by force
      then show ?thesis using inb False by auto
    qed
    then show ?thesis using m [rule_format, of k] False by auto
  qed
  then have "map_of d' = map_of (sparse_board b)" by (rule ext)
  then show ?thesis using render read by (simp add: SparseBoard_def)
qed

theorem render_read_round_trip_witness:
  "str_board \<lparr>width = 8, height = 8, sparse_board = [((2, 2), 1), ((3, 1), - 2), ((7, 7), 2)]\<rparr>
     = Inr (''........'' @ [CHR 0x0A] @ ''...B....'' @ [CHR 0x0A] @ ''..r.....'' @ [CHR 0x0A]
            @ ''........'' @ [CHR 0x0A] @ ''........'' @ [CHR 0x0A] @ ''........'' @ [CHR 0x0A]
            @ ''........'' @ [CHR 0x0A] @ ''.......R'' @ [CHR 0x0A])
   \<and> (\<exists>b'. read_from_string
              (''........'' @ [CHR 0x0A] @ ''...B....'' @ [CHR 0x0A] @ ''..r.....'' @ [CHR 0x0A]
            @ ''........'' @ [CHR 0x0A] @ ''........'' @ [CHR 0x0A] @ ''........'' @ [CHR 0x0A]
            @ ''........'' @ [CHR 0x0A] @ ''.......R'' @ [CHR 0x0A]) = Inr b'
         \<and> map_of (sparse_board b') = map_of [((2, 2), 1), ((3, 1), - 2), ((7, 7), 2)])"
proof -
  let ?b = "\<lparr>width = 8, height = 8, sparse_board = [((2, 2), 1), ((3, 1), - 2), ((7, 7), 2)]\<rparr>"
  have s: "str_board ?b
     = Inr (''........'' @ [CHR 0x0A] @ ''...B....'' @ [CHR 0x0A] @ ''..r.....'' @ [CHR 0x0A]
            @ ''........'' @ [CHR 0x0A] @ ''........'' @ [CHR 0x0A] @ ''........'' @ [CHR 0x0A]
            @ ''........'' @ [CHR 0x0A] @ ''.......R'' @ [CHR 0x0A])"
    by code_simp
  have i: "\<forall>k\<in>set (map fst (sparse_board ?b)).
                  0 \<le> fst k \<and> fst k < width ?b \<and> 0 \<le> snd k \<and> snd k < height ?b"
    by simp
  have v: "\<forall>v\<in>set (map snd (sparse_board ?b)). v \<in> {1, 2, - 1, - 2}" by simp
  show ?thesis using s render_read_round_trip [OF i v] by auto
qed

section \<open>The board hash\<close>

lemma sort_eq_iff_set_eq:
  fixes d d' :: dict
  assumes "distinct d" and "distinct d'"
  shows "sort d = sort d' \<longleftrightarrow> set d = set d'"
proof
  assume "sort d = sort d'"
  then have "set (sort d) = set (sort d')" by simp
  then show "set d = set d'" by simp
next
  assume "set d = set d'"
  then show "sort d = sort d'"
    using assms by (intro sorted_distinct_set_unique) simp_all
qed

lemma distinct_keys_distinct: "distinct (map fst d) \<Longrightarrow> distinct d"
  by (simp add: distinct_map)

text \<open>
  What the code of \<^verbatim>\<open>__hash__\<close> itself fixes. Two boards with the same mapping from
  occupied squares to values have the same hash, whatever the library's hash of the
  serialised text is. The tuple of sorted items that is serialised and hashed is the
  same for two boards exactly when their mappings are the same: it holds both the
  coordinates and the rank, and changing the value of one occupied square (a man to a
  king of the same colour, say) always changes it. Whether two different hash inputs
  get different hash values is decided by the library's hash alone.
\<close>

lemma hash_input_discriminates:
  assumes "distinct (map fst (sparse_board b))" and "distinct (map fst (sparse_board b'))"
  shows "(hash_input b = hash_input b' \<longleftrightarrow> map_of (sparse_board b) = map_of (sparse_board b'))
       \<and> (map_of (sparse_board b) = map_of (sparse_board b') \<longrightarrow> hash_board H b = hash_board H b')
       \<and> (\<forall>k v v'. map_of (sparse_board b) k = Some v \<and> v' \<noteq> v \<longrightarrow>
             hash_input (b\<lparr>sparse_board := AList.update k v' (sparse_board b)\<rparr>) \<noteq> hash_input b)"
proof -
  have eq: "hash_input c = hash_input c' \<longleftrightarrow> map_of (sparse_board c) = map_of (sparse_board c')"
    if "distinct (map fst (sparse_board c))" "distinct (map fst (sparse_board c'))" for c c'
    unfolding hash_input_def
    using that sort_eq_iff_set_eq [of "sparse_board c" "sparse_board c'"]
      distinct_keys_distinct map_of_inject_set [of "sparse_board c" "sparse_board c'"]
    by blast
  have 1: "hash_input b = hash_input b' \<longleftrightarrow> map_of (sparse_board b) = map_of (sparse_board b')"
    using eq assms by blast
  have 2: "map_of (sparse_board b) = map_of (sparse_board b') \<Longrightarrow> hash_board H b = hash_board H b'"
    using 1 by (simp add: hash_board_def)
  have 3: "hash_input (b\<lparr>sparse_board := AList.update k v' (sparse_board b)\<rparr>) \<noteq> hash_input b"
    if "map_of (sparse_board b) k = Some v" "v' \<noteq> v" for k v v'
  proof -
    let ?c = "b\<lparr>sparse_board := AList.update k v' (sparse_board b)\<rparr>"
    have "distinct (map fst (sparse_board ?c))"
      using assms(1) by (simp add: AList.distinct_update)
    moreover have "map_of (sparse_board ?c) k \<noteq> map_of (sparse_board b) k"
      using that by (simp add: AList.update_conv')
    ultimately show ?thesis using eq [of ?c b] assms(1) by metis
  qed
  show ?thesis using 1 2 3 by blast
qed

lemma hash_input_discriminates_example:
  "hash_input \<lparr>width = 8, height = 8, sparse_board = [((4, 5), - 1), ((5, 6), 1)]\<rparr>
     \<noteq> hash_input \<lparr>width = 8, height = 8, sparse_board = [((4, 5), - 2), ((5, 6), 1)]\<rparr>
   \<and> hash_board (\<lambda>t. length t)
        \<lparr>width = 8, height = 8, sparse_board = [((4, 5), - 1), ((5, 6), 1)]\<rparr>
     = hash_board (\<lambda>t. length t)
        \<lparr>width = 8, height = 8, sparse_board = [((5, 6), 1), ((4, 5), - 1)]\<rparr>"
proof -
  let ?b = "\<lparr>width = 8, height = 8, sparse_board = [((4, 5), - 1), ((5, 6), 1)]\<rparr>"
  let ?k = "\<lparr>width = 8, height = 8, sparse_board = [((4, 5), - 2), ((5, 6), 1)]\<rparr>"
  let ?p = "\<lparr>width = 8, height = 8, sparse_board = [((5, 6), 1), ((4, 5), - 1)]\<rparr>"
  have d: "distinct (map fst (sparse_board ?b))" "distinct (map fst (sparse_board ?k))"
    "distinct (map fst (sparse_board ?p))"
    by simp_all
  have n: "map_of (sparse_board ?b) \<noteq> map_of (sparse_board ?k)"
  proof
    assume "map_of (sparse_board ?b) = map_of (sparse_board ?k)"
    then have "map_of (sparse_board ?b) (4, 5) = map_of (sparse_board ?k) (4, 5)" by simp
    then show False by simp
  qed
  have e: "map_of (sparse_board ?b) = map_of (sparse_board ?p)"
    by (rule ext) simp
  show ?thesis
    using hash_input_discriminates [OF d(1) d(2), of "\<lambda>t. length t"]
      hash_input_discriminates [OF d(1) d(3), of "\<lambda>t. length t"] n e
    by blast
qed

text \<open>Every occupied square lies within the width and the height of the board.\<close>

definition in_bounds :: "board \<Rightarrow> bool" where
  "in_bounds b \<longleftrightarrow>
     (\<forall>k\<in>set (map fst (sparse_board b)).
        0 \<le> fst k \<and> fst k < width b \<and> 0 \<le> snd k \<and> snd k < height b)"

text \<open>The position with a red king on every square of a set and nothing else.\<close>

definition kings_on :: "square set \<Rightarrow> dict" where
  "kings_on A = map (\<lambda>k. (k, 2)) (sorted_list_of_set A)"

lemma kings_on_keys:
  "finite A \<Longrightarrow> set (map fst (kings_on A)) = A \<and> distinct (map fst (kings_on A))"
  by (simp add: kings_on_def comp_def)

lemma kings_on_values: "set (map snd (kings_on A)) \<subseteq> {2}"
  by (auto simp: kings_on_def)

lemma collision_among_positions:
  fixes H :: "dict \<Rightarrow> 64 word"
  shows "\<exists>d d'. d \<noteq> d'
           \<and> d \<in> insert [((0, 0), - 2)] (kings_on ` Pow ({0..7} \<times> {0..7}))
           \<and> d' \<in> insert [((0, 0), - 2)] (kings_on ` Pow ({0..7} \<times> {0..7}))
           \<and> H (sort d) = H (sort d')"
proof -
  let ?S = "{0..7} \<times> {0..7} :: square set"
  let ?E = "[((0, 0), - 2)] :: dict"
  let ?P = "insert ?E (kings_on ` Pow ?S)"
  have fin: "finite ?S" by simp
  have cS: "card ?S = 64" by (simp add: card_cartesian_product)
  have inj: "inj_on kings_on (Pow ?S)"
  proof (rule inj_onI)
    fix A B assume A: "A \<in> Pow ?S" and B: "B \<in> Pow ?S" and e: "kings_on A = kings_on B"
    have "finite A" "finite B" using A B fin by (auto intro: finite_subset)
    then show "A = B" using kings_on_keys [of A] kings_on_keys [of B] e by metis
  qed
  have notin: "?E \<notin> kings_on ` Pow ?S"
  proof
    assume "?E \<in> kings_on ` Pow ?S"
    then obtain A where "kings_on A = ?E" by auto
    then have "set (map snd ?E) \<subseteq> {2}" using kings_on_values [of A] by metis
    then show False by simp
  qed
  have "card (kings_on ` Pow ?S) = 2 ^ 64"
    using inj fin cS by (simp add: card_image card_Pow)
  then have cP: "card ?P = Suc (2 ^ 64)"
    using notin fin by (simp add: card_insert_if)
  have "card ((\<lambda>d. H (sort d)) ` ?P) \<le> card (UNIV :: 64 word set)"
    by (rule card_mono) simp_all
  also have "\<dots> = 2 ^ 64" by (simp add: card_word)
  finally have "card ((\<lambda>d. H (sort d)) ` ?P) < card ?P" using cP by simp
  then have "\<not> inj_on (\<lambda>d. H (sort d)) ?P" by (rule pigeonhole)
  then show ?thesis unfolding inj_on_def by blast
qed


lemma position_props:
  assumes "d \<in> insert [((0, 0), - 2)] (kings_on ` Pow ({0..7} \<times> {0..7}))"
  shows "valid_board \<lparr>width = 8, height = 8, sparse_board = d\<rparr>"
    and "in_bounds \<lparr>width = 8, height = 8, sparse_board = d\<rparr>"
proof -
  let ?S = "{0..7} \<times> {0..7} :: square set"
  from assms consider "d = [((0, 0), - 2)]" | A where "A \<subseteq> ?S" "d = kings_on A" by auto
  then have "distinct (map fst d) \<and> set (map snd d) \<subseteq> {2, - 2} \<and> set (map fst d) \<subseteq> ?S"
  proof cases
    case 1
    then show ?thesis by simp
  next
    case 2
    then have "finite A" by (auto intro: finite_subset)
    then show ?thesis using 2 kings_on_keys [of A] kings_on_values [of A] by auto
  qed
  then show "valid_board \<lparr>width = 8, height = 8, sparse_board = d\<rparr>"
    and "in_bounds \<lparr>width = 8, height = 8, sparse_board = d\<rparr>"
    by (auto simp: valid_board_def in_bounds_def)
qed

lemma positions_differ:
  assumes "d \<in> insert [((0, 0), - 2)] (kings_on ` Pow ({0..7} \<times> {0..7}))"
    and "d' \<in> insert [((0, 0), - 2)] (kings_on ` Pow ({0..7} \<times> {0..7}))"
    and "map_of d = map_of d'"
  shows "d = d'"
proof -
  let ?S = "{0..7} \<times> {0..7} :: square set"
  have king: "map_of (kings_on A) (0, 0) \<noteq> Some (- 2)" for A
  proof
    assume "map_of (kings_on A) (0, 0) = Some (- 2)"
    then have "((0, 0), - 2) \<in> set (kings_on A)" by (rule map_of_SomeD)
    then have "- 2 \<in> set (map snd (kings_on A))" by force
    then show False using kings_on_values [of A] by auto
  qed
  have same: "kings_on A = kings_on B"
    if "A \<subseteq> ?S" "B \<subseteq> ?S" "map_of (kings_on A) = map_of (kings_on B)" for A B
  proof -
    have f: "finite A" "finite B" using that(1,2) by (auto intro: finite_subset)
    have "dom (map_of (kings_on A)) = dom (map_of (kings_on B))" using that(3) by simp
    then have "set (map fst (kings_on A)) = set (map fst (kings_on B))"
      by (simp add: dom_map_of_conv_image_fst)
    then have "A = B" using kings_on_keys [OF f(1)] kings_on_keys [OF f(2)] by simp
    then show ?thesis by simp
  qed
  from assms(1) consider "d = [((0, 0), - 2)]" | A where "A \<subseteq> ?S" "d = kings_on A" by auto
  then show ?thesis
  proof cases
    case 1
    from assms(2) consider "d' = [((0, 0), - 2)]" | B where "B \<subseteq> ?S" "d' = kings_on B"
      by auto
    then show ?thesis
    proof cases
      case 1
      then show ?thesis using \<open>d = [((0, 0), - 2)]\<close> by simp
    next
      case 2
      have "map_of d (0, 0) = Some (- 2)" using \<open>d = [((0, 0), - 2)]\<close> by simp
      then show ?thesis using assms(3) 2 king [of B] by simp
    qed
  next
    case 2
    from assms(2) consider "d' = [((0, 0), - 2)]" | B where "B \<subseteq> ?S" "d' = kings_on B"
      by auto
    then show ?thesis
    proof cases
      case 1
      then have "map_of d' (0, 0) = Some (- 2)" by simp
      then show ?thesis using assms(3) 2 king [of A] by simp
    next
      case (2 B)
      then show ?thesis using \<open>A \<subseteq> ?S\<close> \<open>d = kings_on A\<close> assms(3) same [of A B] by simp
    qed
  qed
qed

text \<open>
  The value returned is Python's hash of a text, a machine integer of 64 bits, and the
  8 by 8 board alone has more positions than there are such integers: the positions
  with red kings on any set of squares, and one more with a black king. So whatever the
  hash function of the library is, two boards of the data model within the 8 by 8
  bounds with different mappings have the same hash. The argument counts; it names no
  pair, and it says nothing about two positions that differ in the rank of one square.
\<close>

lemma hash_collision_exists:
  "\<forall>H :: dict \<Rightarrow> 64 word.
     \<exists>b b'. valid_board b \<and> valid_board b' \<and> in_bounds b \<and> in_bounds b'
       \<and> width b = 8 \<and> height b = 8 \<and> width b' = 8 \<and> height b' = 8
       \<and> map_of (sparse_board b) \<noteq> map_of (sparse_board b')
       \<and> hash_board H b = hash_board H b'"
proof
  fix H :: "dict \<Rightarrow> 64 word"
  from collision_among_positions [of H] obtain d d' where ne: "d \<noteq> d'"
    and d: "d \<in> insert [((0, 0), - 2)] (kings_on ` Pow ({0..7} \<times> {0..7}))"
    and d': "d' \<in> insert [((0, 0), - 2)] (kings_on ` Pow ({0..7} \<times> {0..7}))"
    and h: "H (sort d) = H (sort d')"
    by blast
  let ?b = "\<lparr>width = 8, height = 8, sparse_board = d\<rparr>"
  let ?b' = "\<lparr>width = 8, height = 8, sparse_board = d'\<rparr>"
  have "map_of (sparse_board ?b) \<noteq> map_of (sparse_board ?b')"
    using positions_differ [OF d d'] ne by auto
  moreover have "hash_board H ?b = hash_board H ?b'"
    using h by (simp add: hash_board_def hash_input_def)
  ultimately show "\<exists>b b'. valid_board b \<and> valid_board b' \<and> in_bounds b \<and> in_bounds b'
       \<and> width b = 8 \<and> height b = 8 \<and> width b' = 8 \<and> height b' = 8
       \<and> map_of (sparse_board b) \<noteq> map_of (sparse_board b')
       \<and> hash_board H b = hash_board H b'"
    using position_props [OF d] position_props [OF d']
    by (intro exI [of _ ?b] exI [of _ ?b']) simp
qed

end
